theory Spec2Isabelle
  imports Complex_Main
begin

section \<open>Data model (src/src/main.ts, lines 1-26)\<close>

text \<open>
  \<^verbatim>\<open>type Player = 'X' | 'O'\<close> and \<^verbatim>\<open>type CellValue = Player | null\<close>:
  the value \<^verbatim>\<open>null\<close> of a cell is \<open>None\<close>.  A board is a JavaScript array of cell
  values; the program only ever builds it with \<^verbatim>\<open>Array(9).fill(null)\<close>, but the type
  \<^verbatim>\<open>CellValue[]\<close> does not fix the length, so the model is a list of any length.
\<close>

text \<open>The two marks \<^verbatim>\<open>'X'\<close> and \<^verbatim>\<open>'O'\<close> (\<open>O\<close> alone is HOL's relation composition).\<close>

datatype Player = PlayerX | PlayerO

type_synonym CellValue = "Player option"

type_synonym board = "CellValue list"

text \<open>
  Reading \<^verbatim>\<open>board[i]\<close>: an index past the end of a JavaScript array reads
  \<^verbatim>\<open>undefined\<close>, which is neither \<^verbatim>\<open>null\<close> nor a player.  \<open>None\<close> is that
  \<^verbatim>\<open>undefined\<close>, \<open>Some c\<close> the cell value stored at an index in range.
\<close>

definition cell :: "board \<Rightarrow> nat \<Rightarrow> CellValue option" where
  "cell b i = (if i < length b then Some (b ! i) else None)"

text \<open>\<^verbatim>\<open>board[i] === null\<close> and \<^verbatim>\<open>board[i] === player\<close>.\<close>

definition isNull :: "board \<Rightarrow> nat \<Rightarrow> bool" where
  "isNull b i = (cell b i = Some None)"

definition holds :: "board \<Rightarrow> nat \<Rightarrow> Player \<Rightarrow> bool" where
  "holds b i p = (cell b i = Some (Some p))"

text \<open>\<^verbatim>\<open>const WIN_COMBINATIONS: WinCombo[]\<close>, in the order of the source.\<close>

definition WIN_COMBINATIONS :: "nat list list" where
  "WIN_COMBINATIONS =
     [[0, 1, 2], [3, 4, 5], [6, 7, 8],
      [0, 3, 6], [1, 4, 7], [2, 5, 8],
      [0, 4, 8], [2, 4, 6]]"

text \<open>
  \<^verbatim>\<open>function checkWin(board, player)\<close>: \<^verbatim>\<open>some\<close> over the table of an \<^verbatim>\<open>every\<close>
  over the three indices of a line.
\<close>

definition checkWin :: "board \<Rightarrow> Player \<Rightarrow> bool" where
  "checkWin b player =
     list_ex (\<lambda>combo. list_all (\<lambda>index. holds b index player) combo) WIN_COMBINATIONS"

text \<open>\<^verbatim>\<open>board.every(c => c !== null)\<close> and \<^verbatim>\<open>board.every(c => c === null)\<close>.\<close>

definition isFull :: "board \<Rightarrow> bool" where
  "isFull b = list_all (\<lambda>c. c \<noteq> None) b"

definition isEmpty :: "board \<Rightarrow> bool" where
  "isEmpty b = list_all (\<lambda>c. c = None) b"

section \<open>Scores\<close>

text \<open>
  The search computes with JavaScript numbers: the bounds \<^verbatim>\<open>-Infinity\<close> and
  \<^verbatim>\<open>Infinity\<close> that start its loops, and the integers \<^verbatim>\<open>SCORES.O - depth\<close>,
  \<^verbatim>\<open>SCORES.X + depth\<close> and \<^verbatim>\<open>SCORES.TIE\<close>.  The depth is an integer counter (0 at
  the root, one more at each ply).
\<close>

datatype score = NegInf | Fin int | PosInf

fun score_less :: "score \<Rightarrow> score \<Rightarrow> bool" where
  "score_less NegInf NegInf = False"
| "score_less NegInf (Fin b) = True"
| "score_less NegInf PosInf = True"
| "score_less (Fin a) NegInf = False"
| "score_less (Fin a) (Fin b) = (a < b)"
| "score_less (Fin a) PosInf = True"
| "score_less PosInf s = False"

instantiation score :: linorder
begin

definition less_score :: "score \<Rightarrow> score \<Rightarrow> bool" where
  "less_score a b = score_less a b"

definition less_eq_score :: "score \<Rightarrow> score \<Rightarrow> bool" where
  "less_eq_score a b = (a = b \<or> score_less a b)"

instance
proof
  fix x y z :: score
  show "(x < y) = (x \<le> y \<and> \<not> y \<le> x)"
    by (cases x; cases y) (auto simp: less_score_def less_eq_score_def)
  show "x \<le> x"
    by (simp add: less_eq_score_def)
  show "x \<le> y \<Longrightarrow> y \<le> z \<Longrightarrow> x \<le> z"
    by (cases x; cases y; cases z) (auto simp: less_eq_score_def)
  show "x \<le> y \<Longrightarrow> y \<le> x \<Longrightarrow> x = y"
    by (cases x; cases y) (auto simp: less_eq_score_def)
  show "x \<le> y \<or> y \<le> x"
    by (cases x; cases y) (auto simp: less_eq_score_def)
qed

end

text \<open>\<^verbatim>\<open>const SCORES = { X: -10, O: 10, TIE: 0 }\<close>.\<close>

definition SCORES_X :: int where "SCORES_X = -10"
definition SCORES_O :: int where "SCORES_O = 10"
definition SCORES_TIE :: int where "SCORES_TIE = 0"

section \<open>The search (src/src/main.ts, lines 151-207)\<close>

text \<open>
  \<^verbatim>\<open>minimax\<close> writes into the array it is given (\<^verbatim>\<open>board[i] = 'O'\<close>, the recursive
  call, \<^verbatim>\<open>board[i] = null\<close>), so the model passes the board through: every function
  returns its number together with the array as the call leaves it.  The two \<^verbatim>\<open>for\<close>
  loops are the functions \<open>maxLoop\<close> and \<open>minLoop\<close>, with the loop variable \<open>i\<close> and
  \<^verbatim>\<open>bestScore\<close> as arguments.  A write happens only at an index that has just been
  read as \<^verbatim>\<open>null\<close>, hence in range: \<open>b[i := v]\<close> is the write.
\<close>

function minimax :: "board \<Rightarrow> int \<Rightarrow> bool \<Rightarrow> Player \<Rightarrow> score \<times> board"
  and maxLoop :: "board \<Rightarrow> int \<Rightarrow> Player \<Rightarrow> nat \<Rightarrow> score \<Rightarrow> score \<times> board"
  and minLoop :: "board \<Rightarrow> int \<Rightarrow> Player \<Rightarrow> nat \<Rightarrow> score \<Rightarrow> score \<times> board"
where
  "minimax b depth isMaximizing aiPlayer =
     (if checkWin b PlayerO then (Fin (SCORES_O - depth), b)
      else if checkWin b PlayerX then (Fin (SCORES_X + depth), b)
      else if isFull b then (Fin SCORES_TIE, b)
      else if isMaximizing then maxLoop b depth aiPlayer 0 NegInf
      else minLoop b depth aiPlayer 0 PosInf)"
| "maxLoop b depth aiPlayer i bestScore =
     (if i < 9 then
        (if isNull b i then
           (case minimax (b[i := Some PlayerO]) (depth + 1) False aiPlayer of
              (score, b') \<Rightarrow> maxLoop (b'[i := None]) depth aiPlayer (i + 1) (max score bestScore))
         else maxLoop b depth aiPlayer (i + 1) bestScore)
      else (bestScore, b))"
| "minLoop b depth aiPlayer i bestScore =
     (if i < 9 then
        (if isNull b i then
           (case minimax (b[i := Some PlayerX]) (depth + 1) True aiPlayer of
              (score, b') \<Rightarrow> minLoop (b'[i := None]) depth aiPlayer (i + 1) (min score bestScore))
         else minLoop b depth aiPlayer (i + 1) bestScore)
      else (bestScore, b))"
  by pat_completeness auto

text \<open>
  Termination: the number of \<^verbatim>\<open>null\<close> cells decreases at every call of \<open>minimax\<close>
  from a loop, and a loop gives back the board it was given, so the count is the same at
  the next iteration, where \<open>9 - i\<close> has decreased.  The second part needs the board
  returned by the inner call: it is proved first on the domain of the functions.
\<close>

definition nulls :: "board \<Rightarrow> nat" where
  "nulls b = length (filter (\<lambda>c. c = None) b)"

lemma isNull_iff: "isNull b i \<longleftrightarrow> i < length b \<and> b ! i = None"
  by (auto simp: isNull_def cell_def)

lemma null_write: "isNull b i \<Longrightarrow> b[i := None] = b"
  by (simp add: isNull_iff list_update_same_conv)

lemma nulls_place: "isNull b i \<Longrightarrow> Suc (nulls (b[i := Some p])) = nulls b"
proof (induction b arbitrary: i)
  case Nil
  then show ?case by (simp add: isNull_iff)
next
  case (Cons c b)
  then show ?case
    by (cases i) (auto simp: isNull_iff nulls_def)
qed

lemma frame_dom:
  "minimax_maxLoop_minLoop_dom (Inl (b, depth, isMaximizing, aiPlayer)) \<Longrightarrow>
     snd (minimax b depth isMaximizing aiPlayer) = b"
  "minimax_maxLoop_minLoop_dom (Inr (Inl (b, depth, aiPlayer, i, bestScore))) \<Longrightarrow>
     snd (maxLoop b depth aiPlayer i bestScore) = b"
  "minimax_maxLoop_minLoop_dom (Inr (Inr (b, depth, aiPlayer, i, bestScore))) \<Longrightarrow>
     snd (minLoop b depth aiPlayer i bestScore) = b"
proof (induct rule: minimax_maxLoop_minLoop.pinduct)
  case (1 b depth isMaximizing aiPlayer)
  then show ?case by (simp add: minimax.psimps)
next
  case (2 b depth aiPlayer i bestScore)
  then show ?case
    by (auto simp: maxLoop.psimps null_write split: prod.splits)
next
  case (3 b depth aiPlayer i bestScore)
  then show ?case
    by (auto simp: minLoop.psimps null_write split: prod.splits)
qed

lemma restore_dom:
  assumes "minimax_maxLoop_minLoop_dom (Inl (b[i := Some p], depth, isMaximizing, aiPlayer))"
    and "(x, y) = minimax (b[i := Some p]) depth isMaximizing aiPlayer"
    and "isNull b i"
  shows "y[i := None] = b"
proof -
  have "y = b[i := Some p]"
    using frame_dom(1)[OF assms(1)] assms(2) by (metis snd_conv)
  then show ?thesis
    using assms(3) by (simp add: null_write)
qed

lemma minimax_calls_decrease:
  "All minimax_maxLoop_minLoop_dom"
proof (relation "measure (\<lambda>x. case x of
          Inl (b, depth, isMaximizing, aiPlayer) \<Rightarrow> 11 * nulls b + 10
        | Inr (Inl (b, depth, aiPlayer, i, bestScore)) \<Rightarrow> 11 * nulls b + (9 - i)
        | Inr (Inr (b, depth, aiPlayer, i, bestScore)) \<Rightarrow> 11 * nulls b + (9 - i))",
    goal_cases)
  case (4 b depth aiPlayer i bestScore)
  then show ?case using nulls_place[of b i PlayerO] by simp
next
  case (5 b depth aiPlayer i bestScore x y)
  then show ?case using restore_dom[of b i PlayerO "depth + 1" False aiPlayer x y] by simp
next
  case (7 b depth aiPlayer i bestScore)
  then show ?case using nulls_place[of b i PlayerX] by simp
next
  case (8 b depth aiPlayer i bestScore x y)
  then show ?case using restore_dom[of b i PlayerX "depth + 1" True aiPlayer x y] by simp
qed simp_all

termination minimax
  by (rule minimax_calls_decrease)

declare minimax.simps [simp del] maxLoop.simps [simp del] minLoop.simps [simp del]

text \<open>
  \<^verbatim>\<open>function getBestMove(board, aiPlayer)\<close>.  The loop is \<open>bestLoop\<close>, with \<open>i\<close>,
  \<^verbatim>\<open>bestScore\<close> and \<^verbatim>\<open>move\<close> as arguments; the result is the returned index (\<open>-1\<close>
  when no cell was taken) and the board as the call leaves it.
\<close>

function bestLoop :: "board \<Rightarrow> Player \<Rightarrow> nat \<Rightarrow> score \<Rightarrow> int \<Rightarrow> int \<times> board" where
  "bestLoop b aiPlayer i bestScore move =
     (if i < 9 then
        (if isNull b i then
           (case minimax (b[i := Some aiPlayer]) 0 False aiPlayer of
              (score, b') \<Rightarrow>
                (if score > bestScore
                 then bestLoop (b'[i := None]) aiPlayer (i + 1) score (int i)
                 else bestLoop (b'[i := None]) aiPlayer (i + 1) bestScore move))
         else bestLoop b aiPlayer (i + 1) bestScore move)
      else (move, b))"
  by pat_completeness auto

termination bestLoop
  by (relation "measure (\<lambda>(b, aiPlayer, i, bestScore, move). 9 - i)") auto

declare bestLoop.simps [simp del]

definition getBestMove :: "board \<Rightarrow> Player \<Rightarrow> int \<times> board" where
  "getBestMove b aiPlayer =
     (if isEmpty b then (4, b) else bestLoop b aiPlayer 0 NegInf (- 1))"

section \<open>The random policy (src/src/main.ts, lines 143-147)\<close>

text \<open>
  \<^verbatim>\<open>getRandomMove\<close> reads the board of the global state and draws \<^verbatim>\<open>Math.random()\<close>;
  both are arguments here, the draw as a real number \<open>r\<close>.  The index
  \<^verbatim>\<open>Math.floor(r * available.length)\<close> is read from \<^verbatim>\<open>available\<close>; a read outside
  the array gives \<^verbatim>\<open>undefined\<close>, the value \<open>None\<close> of the result.
\<close>

definition available :: "board \<Rightarrow> int list" where
  "available b =
     filter (\<lambda>i. i \<noteq> - 1)
       (map (\<lambda>(v, i). if v = None then int i else - 1) (zip b [0..<length b]))"

definition getRandomMove :: "board \<Rightarrow> real \<Rightarrow> int option" where
  "getRandomMove b r =
     (if length (available b) = 0 then Some (- 1)
      else (let k = \<lfloor>r * real (length (available b))\<rfloor>
            in if 0 \<le> k \<and> k < int (length (available b))
               then Some (available b ! nat k) else None))"

section \<open>The game session (src/src/main.ts, lines 8-19, 28-36, 72-141, 282-302)\<close>

text \<open>
  The global \<^verbatim>\<open>state\<close> is a record that every function takes and returns.  Rendering,
  sound and the storage of the tally have no effect on the fields and are left out.
\<close>

datatype GameMode = pvp | pvec | pvcm | pvch

datatype Difficulty = easy | medium | hard

record Stats =
  xWins :: nat
  oWins :: nat
  draws :: nat

record GameState =
  board :: board
  currentPlayer :: Player
  isGameActive :: bool
  mode :: GameMode
  stats :: Stats
  isMuted :: bool

text \<open>The argument of \<^verbatim>\<open>endGame(winner: Player | 'draw')\<close>.\<close>

datatype Winner = Won Player | Draw

definition endGame :: "Winner \<Rightarrow> GameState \<Rightarrow> GameState" where
  "endGame winner st =
     (let st1 = st\<lparr>isGameActive := False\<rparr>
      in case winner of
           Draw \<Rightarrow> st1\<lparr>stats := (stats st1)\<lparr>draws := draws (stats st1) + 1\<rparr>\<rparr>
         | Won w \<Rightarrow>
             (if w = PlayerX then st1\<lparr>stats := (stats st1)\<lparr>xWins := xWins (stats st1) + 1\<rparr>\<rparr>
              else st1\<lparr>stats := (stats st1)\<lparr>oWins := oWins (stats st1) + 1\<rparr>\<rparr>))"

text \<open>
  \<^verbatim>\<open>makeMove(index, player)\<close>: the write \<^verbatim>\<open>state.board[index] = player\<close>, then the
  checks (\<open>afterMove\<close>).  Every caller passes the index of a cell it has read as
  \<^verbatim>\<open>null\<close>, or the index returned by a policy.
\<close>

definition afterMove :: "Player \<Rightarrow> GameState \<Rightarrow> GameState" where
  "afterMove player st =
     (if checkWin (board st) player then endGame (Won player) st
      else if isFull (board st) then endGame Draw st
      else st\<lparr>currentPlayer := (if currentPlayer st = PlayerX then PlayerO else PlayerX)\<rparr>)"

definition makeMove :: "nat \<Rightarrow> Player \<Rightarrow> GameState \<Rightarrow> GameState" where
  "makeMove index player st = afterMove player (st\<lparr>board := (board st)[index := Some player]\<rparr>)"

definition isAiTurn :: "GameState \<Rightarrow> bool" where
  "isAiTurn st = (mode st \<noteq> pvp \<and> currentPlayer st = PlayerO)"

definition getDifficulty :: "GameState \<Rightarrow> Difficulty" where
  "getDifficulty st =
     (case mode st of pvec \<Rightarrow> easy | pvcm \<Rightarrow> medium | pvch \<Rightarrow> hard | pvp \<Rightarrow> easy)"

text \<open>
  \<^verbatim>\<open>makeAiMove()\<close>, with the two draws of \<^verbatim>\<open>Math.random()\<close> as arguments: \<open>r1\<close> is
  the one compared with 0.5, \<open>r2\<close> the one of \<^verbatim>\<open>getRandomMove\<close>.  \<^verbatim>\<open>getBestMove\<close>
  is handed \<^verbatim>\<open>state.board\<close> itself, so the board it leaves is the board of the state.
  An \<^verbatim>\<open>undefined\<close> index is not \<open>-1\<close>; the write \<^verbatim>\<open>state.board[undefined] = 'O'\<close>
  then changes no cell.
\<close>

definition bestChoice :: "GameState \<Rightarrow> int option \<times> GameState" where
  "bestChoice st =
     (case getBestMove (board st) PlayerO of (m, b') \<Rightarrow> (Some m, st\<lparr>board := b'\<rparr>))"

definition makeAiMove :: "GameState \<Rightarrow> real \<Rightarrow> real \<Rightarrow> GameState" where
  "makeAiMove st r1 r2 =
     (if \<not> isGameActive st then st
      else
        (case (if getDifficulty st = easy then (getRandomMove (board st) r2, st)
               else if getDifficulty st = medium then
                 (if r1 > 0.5 then bestChoice st else (getRandomMove (board st) r2, st))
               else bestChoice st) of
           (moveIndex, st') \<Rightarrow>
             (case moveIndex of
                None \<Rightarrow> afterMove PlayerO st'
              | Some m \<Rightarrow> if m \<noteq> - 1 then makeMove (nat m) PlayerO st' else st')))"

text \<open>
  \<^verbatim>\<open>handleCellClick(index)\<close>.  The reply of the automated side runs in a timer, with
  the input blocked (\<^verbatim>\<open>isGameActive = false\<close>) until it fires; the model runs it at
  once.
\<close>

definition handleCellClick :: "nat \<Rightarrow> GameState \<Rightarrow> real \<Rightarrow> real \<Rightarrow> GameState" where
  "handleCellClick index st r1 r2 =
     (if \<not> isGameActive st \<or> \<not> isNull (board st) index then st
      else
        (let st1 = makeMove index (currentPlayer st) st
         in if isGameActive st1 \<and> isAiTurn st1 then makeAiMove st1 r1 r2 else st1))"

text \<open>\<^verbatim>\<open>resetGame()\<close>: the fields it assigns.\<close>

definition resetGame :: "GameState \<Rightarrow> GameState" where
  "resetGame st = st\<lparr>board := replicate 9 None, currentPlayer := PlayerX, isGameActive := True\<rparr>"

text \<open>
  A play against the hard opponent: the state that \<open>resetGame\<close> leaves, in the mode
  \<^verbatim>\<open>'pvch'\<close> and with a fresh tally, then the moves.  The mark \<^verbatim>\<open>'X'\<close> takes any
  cell that is \<^verbatim>\<open>null\<close>; the mark \<^verbatim>\<open>'O'\<close> moves by \<open>makeAiMove\<close>.  The program gives
  the first move to \<^verbatim>\<open>'X'\<close>; \<open>first\<close> lets either mark begin.
\<close>

definition newGame :: "Player \<Rightarrow> GameState" where
  "newGame first =
     \<lparr>board = replicate 9 None, currentPlayer = first, isGameActive = True, mode = pvch,
      stats = \<lparr>xWins = 0, oWins = 0, draws = 0\<rparr>, isMuted = False\<rparr>"

inductive play :: "GameState \<Rightarrow> bool" where
  start: "play (newGame first)"
| human: "play st \<Longrightarrow> isGameActive st \<Longrightarrow> currentPlayer st = PlayerX \<Longrightarrow> isNull (board st) i \<Longrightarrow>
          play (makeMove i PlayerX st)"
| ai: "play st \<Longrightarrow> isGameActive st \<Longrightarrow> currentPlayer st = PlayerO \<Longrightarrow>
       play (makeAiMove st r1 r2)"

section \<open>Notions used in the statements\<close>

text \<open>
  The score that the root loop of \<open>getBestMove\<close> computes for the cell \<open>j\<close>: the mark is
  placed there and \<open>minimax\<close> is called at depth 0 in the minimizing role.
\<close>

definition rootScore :: "board \<Rightarrow> Player \<Rightarrow> nat \<Rightarrow> score" where
  "rootScore b aiPlayer j = fst (minimax (b[j := Some aiPlayer]) 0 False aiPlayer)"

text \<open>The cells that a loop still visits from the index \<open>i\<close> on: the \<^verbatim>\<open>null\<close> cells below 9.\<close>

definition cellsFrom :: "board \<Rightarrow> nat \<Rightarrow> nat set" where
  "cellsFrom b i = {j. i \<le> j \<and> j < 9 \<and> isNull b j}"

text \<open>
  Whether a mark can avoid defeat.  \<open>safe me b isMaximizing\<close> decides, by the same
  exhaustive recursion as \<open>minimax\<close> (the terminal tests in the same order, then every
  \<^verbatim>\<open>null\<close> cell below 9), whether the mark \<open>me\<close> has a way not to lose from the board
  \<open>b\<close> when \<^verbatim>\<open>'O'\<close> (\<open>isMaximizing\<close>) or \<^verbatim>\<open>'X'\<close> is to move: some move of its own
  must be safe, and every move of the other mark.  It is not part of the program; the
  scores of \<open>minimax\<close> are bounded with it.
\<close>

definition mover :: "bool \<Rightarrow> Player" where
  "mover isMaximizing = (if isMaximizing then PlayerO else PlayerX)"

function safe :: "Player \<Rightarrow> board \<Rightarrow> bool \<Rightarrow> bool"
  and someMove :: "Player \<Rightarrow> board \<Rightarrow> bool \<Rightarrow> nat list \<Rightarrow> bool"
  and everyMove :: "Player \<Rightarrow> board \<Rightarrow> bool \<Rightarrow> nat list \<Rightarrow> bool"
where
  "safe me b isMaximizing =
     (if checkWin b PlayerO then me = PlayerO
      else if checkWin b PlayerX then me = PlayerX
      else if isFull b then True
      else if mover isMaximizing = me then someMove me b isMaximizing [4, 0, 2, 6, 8, 1, 3, 5, 7]
      else everyMove me b isMaximizing [0, 1, 2, 3, 4, 5, 6, 7, 8])"
| "someMove me b isMaximizing [] = False"
| "someMove me b isMaximizing (i # rest) =
     (if isNull b i then
        (if safe me (b[i := Some (mover isMaximizing)]) (\<not> isMaximizing) then True
         else someMove me b isMaximizing rest)
      else someMove me b isMaximizing rest)"
| "everyMove me b isMaximizing [] = True"
| "everyMove me b isMaximizing (i # rest) =
     (if isNull b i then
        (if safe me (b[i := Some (mover isMaximizing)]) (\<not> isMaximizing)
         then everyMove me b isMaximizing rest else False)
      else everyMove me b isMaximizing rest)"
  by pat_completeness auto

termination safe
proof (relation "measure (\<lambda>x. case x of
          Inl (me, b, m) \<Rightarrow> 11 * nulls b + 10
        | Inr (Inl (me, b, m, js)) \<Rightarrow> 11 * nulls b + length js
        | Inr (Inr (me, b, m, js)) \<Rightarrow> 11 * nulls b + length js)", goal_cases)
  case (4 me b m i rest)
  then show ?case using nulls_place[of b i "mover m"] by simp
next
  case (7 me b m i rest)
  then show ?case using nulls_place[of b i "mover m"] by simp
qed simp_all

declare safe.simps [simp del] someMove.simps [simp del] everyMove.simps [simp del]

text \<open>
  Boards written out cell by cell: \<open>cN\<close> is a \<^verbatim>\<open>null\<close> cell, \<open>cX\<close> and \<open>cO\<close> are cells
  with the marks.
\<close>

abbreviation cN :: CellValue where "cN \<equiv> None"

abbreviation cX :: CellValue where "cX \<equiv> Some PlayerX"

abbreviation cO :: CellValue where "cO \<equiv> Some PlayerO"

text \<open>A full board with no winner, as a drawn game leaves it.\<close>

definition drawnBoard :: board where
  "drawnBoard = [cX, cO, cX, cX, cO, cO, cO, cX, cX]"

text \<open>A board with one \<^verbatim>\<open>null\<close> cell, the last.\<close>

definition lastCell :: board where
  "lastCell = [cX, cO, cX, cX, cO, cO, cO, cX, cN]"

text \<open>A board where \<^verbatim>\<open>'O'\<close> wins at once at cell 5 and at cell 7.\<close>

definition tieBoard :: board where
  "tieBoard = [cX, cX, cO, cX, cX, cN, cO, cN, cO]"

text \<open>A game in progress in the hard mode, with nothing in the tally.\<close>

definition position :: "board \<Rightarrow> Player \<Rightarrow> GameState" where
  "position b p =
     \<lparr>board = b, currentPlayer = p, isGameActive = True, mode = pvch,
      stats = \<lparr>xWins = 0, oWins = 0, draws = 0\<rparr>, isMuted = False\<rparr>"

text \<open>
  A play in which \<^verbatim>\<open>'O'\<close> begins: the hard opponent moves, then \<^verbatim>\<open>'X'\<close> takes the cells
  0, 7 and 2 in turn, each followed by the reply of the hard opponent.
\<close>

definition sampleGame :: GameState where
  "sampleGame =
     makeAiMove (makeMove 2 PlayerX
       (makeAiMove (makeMove 7 PlayerX
         (makeAiMove (makeMove 0 PlayerX
           (makeAiMove (newGame PlayerO) 0 0)) 0 0)) 0 0)) 0 0"

text \<open>
  The invariant of a play against the hard opponent: nine cells, no line of \<^verbatim>\<open>'X'\<close>, no
  win of \<^verbatim>\<open>'X'\<close> in the tally; while the game is on, no line of \<^verbatim>\<open>'O'\<close> either, a
  \<^verbatim>\<open>null\<close> cell left, and \<^verbatim>\<open>'O'\<close> safe with the mark of the state to move; once it is
  over, a line of \<^verbatim>\<open>'O'\<close> and one win of \<^verbatim>\<open>'O'\<close>, or a full board and one draw.
\<close>

definition unbeaten :: "GameState \<Rightarrow> bool" where
  "unbeaten st \<longleftrightarrow>
     length (board st) = 9 \<and> mode st = pvch \<and> xWins (stats st) = 0
     \<and> \<not> checkWin (board st) PlayerX
     \<and> (if isGameActive st
        then \<not> checkWin (board st) PlayerO \<and> \<not> isFull (board st)
          \<and> oWins (stats st) = 0 \<and> draws (stats st) = 0
          \<and> safe PlayerO (board st) (currentPlayer st = PlayerO)
        else (checkWin (board st) PlayerO \<and> oWins (stats st) = 1 \<and> draws (stats st) = 0)
          \<or> (\<not> checkWin (board st) PlayerO \<and> isFull (board st)
             \<and> oWins (stats st) = 0 \<and> draws (stats st) = 1))"

section \<open>The search gives the board back\<close>

lemma minimax_board [simp]: "snd (minimax b depth isMaximizing aiPlayer) = b"
  using minimax_calls_decrease by (auto intro: frame_dom)

lemma maxLoop_board [simp]: "snd (maxLoop b depth aiPlayer i bestScore) = b"
  using minimax_calls_decrease by (auto intro: frame_dom)

lemma minLoop_board [simp]: "snd (minLoop b depth aiPlayer i bestScore) = b"
  using minimax_calls_decrease by (auto intro: frame_dom)

lemma bestLoop_board [simp]: "snd (bestLoop b aiPlayer i bestScore move) = b"
proof (induction b aiPlayer i bestScore move rule: bestLoop.induct)
  case (1 b aiPlayer i bestScore move)
  show ?case
  proof (cases "i < 9 \<and> isNull b i")
    case True
    obtain s b' where m: "minimax (b[i := Some aiPlayer]) 0 False aiPlayer = (s, b')"
      by (cases "minimax (b[i := Some aiPlayer]) 0 False aiPlayer")
    then have b': "b' = b[i := Some aiPlayer]"
      using minimax_board[of "b[i := Some aiPlayer]" 0 False aiPlayer] by simp
    have undo: "b'[i := None] = b"
      using True b' by (simp add: null_write)
    show ?thesis
      using True m undo "1.IH"(1,2)
      by (subst bestLoop.simps) (simp split: if_splits)
  next
    case False
    then show ?thesis
      using "1.IH"(3) by (subst bestLoop.simps) auto
  qed
qed


lemma getBestMove_board [simp]: "snd (getBestMove b aiPlayer) = b"
  by (simp add: getBestMove_def)

section \<open>The loops as maxima and minima\<close>

lemma maxLoop_unfold:
  "maxLoop b depth aiPlayer i bestScore =
     (if i < 9 then
        (if isNull b i then
           maxLoop b depth aiPlayer (i + 1)
             (max (fst (minimax (b[i := Some PlayerO]) (depth + 1) False aiPlayer)) bestScore)
         else maxLoop b depth aiPlayer (i + 1) bestScore)
      else (bestScore, b))"
proof -
  obtain s b' where m: "minimax (b[i := Some PlayerO]) (depth + 1) False aiPlayer = (s, b')"
    by (cases "minimax (b[i := Some PlayerO]) (depth + 1) False aiPlayer")
  then have "b' = b[i := Some PlayerO]"
    using minimax_board[of "b[i := Some PlayerO]" "depth + 1" False aiPlayer] by simp
  then have "isNull b i \<Longrightarrow> b'[i := None] = b"
    by (simp add: null_write)
  then show ?thesis
    using m by (subst maxLoop.simps) simp
qed

lemma minLoop_unfold:
  "minLoop b depth aiPlayer i bestScore =
     (if i < 9 then
        (if isNull b i then
           minLoop b depth aiPlayer (i + 1)
             (min (fst (minimax (b[i := Some PlayerX]) (depth + 1) True aiPlayer)) bestScore)
         else minLoop b depth aiPlayer (i + 1) bestScore)
      else (bestScore, b))"
proof -
  obtain s b' where m: "minimax (b[i := Some PlayerX]) (depth + 1) True aiPlayer = (s, b')"
    by (cases "minimax (b[i := Some PlayerX]) (depth + 1) True aiPlayer")
  then have "b' = b[i := Some PlayerX]"
    using minimax_board[of "b[i := Some PlayerX]" "depth + 1" True aiPlayer] by simp
  then have "isNull b i \<Longrightarrow> b'[i := None] = b"
    by (simp add: null_write)
  then show ?thesis
    using m by (subst minLoop.simps) simp
qed

lemma bestLoop_unfold:
  "bestLoop b aiPlayer i bestScore move =
     (if i < 9 then
        (if isNull b i then
           (if rootScore b aiPlayer i > bestScore
            then bestLoop b aiPlayer (i + 1) (rootScore b aiPlayer i) (int i)
            else bestLoop b aiPlayer (i + 1) bestScore move)
         else bestLoop b aiPlayer (i + 1) bestScore move)
      else (move, b))"
proof -
  obtain s b' where m: "minimax (b[i := Some aiPlayer]) 0 False aiPlayer = (s, b')"
    by (cases "minimax (b[i := Some aiPlayer]) 0 False aiPlayer")
  then have "b' = b[i := Some aiPlayer]"
    using minimax_board[of "b[i := Some aiPlayer]" 0 False aiPlayer] by simp
  then have "isNull b i \<Longrightarrow> b'[i := None] = b"
    by (simp add: null_write)
  then show ?thesis
    using m by (subst bestLoop.simps) (simp add: rootScore_def)
qed

lemma cellsFrom_finite [simp]: "finite (cellsFrom b i)"
  by (simp add: cellsFrom_def)

lemma cellsFrom_done: "\<not> i < 9 \<Longrightarrow> cellsFrom b i = {}"
  by (auto simp: cellsFrom_def)

lemma cellsFrom_null: "i < 9 \<Longrightarrow> isNull b i \<Longrightarrow> cellsFrom b i = insert i (cellsFrom b (i + 1))"
  by (auto simp: cellsFrom_def intro: le_neq_implies_less)

lemma cellsFrom_skip:
  assumes "\<not> isNull b i"
  shows "cellsFrom b i = cellsFrom b (i + 1)"
proof -
  have "(i \<le> j \<and> isNull b j) = (i + 1 \<le> j \<and> isNull b j)" for j
    using assms by (cases "j = i") auto
  then show ?thesis
    by (auto simp: cellsFrom_def)
qed

lemma Max_insert_max:
  fixes a c :: "'a :: linorder"
  assumes "finite A"
  shows "Max (insert (max a c) A) = Max (insert c (insert a A))"
proof (cases "A = {}")
  case True
  then show ?thesis by (simp add: max.commute)
next
  case False
  then show ?thesis
    using assms by (simp add: max.assoc max.commute max.left_commute)
qed

lemma Min_insert_min:
  fixes a c :: "'a :: linorder"
  assumes "finite A"
  shows "Min (insert (min a c) A) = Min (insert c (insert a A))"
proof (cases "A = {}")
  case True
  then show ?thesis by (simp add: min.commute)
next
  case False
  then show ?thesis
    using assms by (simp add: min.assoc min.commute min.left_commute)
qed

lemma maxLoop_Max:
  "fst (maxLoop b depth aiPlayer i bestScore) =
     Max (insert bestScore
       ((\<lambda>j. fst (minimax (b[j := Some PlayerO]) (depth + 1) False aiPlayer)) ` cellsFrom b i))"
proof (induction "9 - i" arbitrary: i bestScore)
  case 0
  then show ?case
    by (subst maxLoop_unfold) (simp add: cellsFrom_done)
next
  case (Suc k)
  then have i: "i < 9" and k: "k = 9 - (i + 1)" by auto
  show ?case
  proof (cases "isNull b i")
    case True
    show ?thesis
      using i True Suc.hyps(1)[OF k]
      by (subst maxLoop_unfold) (simp add: cellsFrom_null Max_insert_max)
  next
    case False
    show ?thesis
      using i False Suc.hyps(1)[OF k]
      by (subst maxLoop_unfold) (simp add: cellsFrom_skip)
  qed
qed

lemma minLoop_Min:
  "fst (minLoop b depth aiPlayer i bestScore) =
     Min (insert bestScore
       ((\<lambda>j. fst (minimax (b[j := Some PlayerX]) (depth + 1) True aiPlayer)) ` cellsFrom b i))"
proof (induction "9 - i" arbitrary: i bestScore)
  case 0
  then show ?case
    by (subst minLoop_unfold) (simp add: cellsFrom_done)
next
  case (Suc k)
  then have i: "i < 9" and k: "k = 9 - (i + 1)" by auto
  show ?case
  proof (cases "isNull b i")
    case True
    show ?thesis
      using i True Suc.hyps(1)[OF k]
      by (subst minLoop_unfold) (simp add: cellsFrom_null Min_insert_min)
  next
    case False
    show ?thesis
      using i False Suc.hyps(1)[OF k]
      by (subst minLoop_unfold) (simp add: cellsFrom_skip)
  qed
qed


lemma score_order [simp]:
  "Fin x \<le> Fin y \<longleftrightarrow> x \<le> y"
  "Fin x < Fin y \<longleftrightarrow> x < y"
  "NegInf \<le> s"
  "s \<le> PosInf"
  "\<not> s < NegInf"
  "\<not> PosInf < s"
  "NegInf < Fin x"
  "Fin x < PosInf"
  "NegInf < PosInf"
  "\<not> Fin x \<le> NegInf"
  "\<not> PosInf \<le> Fin x"
  "\<not> PosInf \<le> NegInf"
  by (cases s; auto simp: less_eq_score_def less_score_def)+

lemma minimax_score:
  "fst (minimax b depth isMaximizing aiPlayer) =
     (if checkWin b PlayerO then Fin (10 - depth)
      else if checkWin b PlayerX then Fin (- 10 + depth)
      else if isFull b then Fin 0
      else if isMaximizing then
        Max (insert NegInf
          ((\<lambda>j. fst (minimax (b[j := Some PlayerO]) (depth + 1) False aiPlayer)) ` cellsFrom b 0))
      else
        Min (insert PosInf
          ((\<lambda>j. fst (minimax (b[j := Some PlayerX]) (depth + 1) True aiPlayer)) ` cellsFrom b 0)))"
  by (simp add: minimax.simps maxLoop_Max minLoop_Min SCORES_O_def SCORES_X_def SCORES_TIE_def)

lemma not_full_cell:
  assumes "\<not> isFull b" and "length b \<le> 9"
  shows "\<exists>j. j \<in> cellsFrom b 0"
proof -
  obtain j where "j < length b" "b ! j = None"
    using assms(1) by (auto simp: isFull_def list_all_length)
  then have "j \<in> cellsFrom b 0"
    using assms(2) by (simp add: cellsFrom_def isNull_iff)
  then show ?thesis ..
qed

lemma nulls_place_less: "isNull b j \<Longrightarrow> nulls (b[j := Some p]) < nulls b"
  using nulls_place[of b j p] by simp

lemma minimax_Fin:
  "length b \<le> 9 \<Longrightarrow> \<exists>v. fst (minimax b depth isMaximizing aiPlayer) = Fin v"
proof (induction "nulls b" arbitrary: b depth isMaximizing rule: less_induct)
  case less
  show ?case
  proof (cases "checkWin b PlayerO \<or> checkWin b PlayerX \<or> isFull b")
    case True
    then show ?thesis
      by (subst minimax_score) auto
  next
    case False
    then obtain j0 where j0: "j0 \<in> cellsFrom b 0"
      using not_full_cell less.prems by blast
    have kids: "\<exists>v. fst (minimax (b[j := Some p]) d m aiPlayer) = Fin v"
      if "j \<in> cellsFrom b 0" for j p d m
      using that less.prems by (intro less.hyps) (simp_all add: cellsFrom_def nulls_place_less)
    show ?thesis
    proof (cases isMaximizing)
      case True
      define S where
        "S = (\<lambda>j. fst (minimax (b[j := Some PlayerO]) (depth + 1) False aiPlayer)) ` cellsFrom b 0"
      have fin: "finite (insert NegInf S)" by (simp add: S_def)
      have eq: "fst (minimax b depth isMaximizing aiPlayer) = Max (insert NegInf S)"
        using False True by (subst minimax_score) (simp add: S_def)
      obtain v0 where v0: "Fin v0 \<in> S"
        using kids[OF j0, of PlayerO "depth + 1" False] j0 by (auto simp: S_def image_iff) metis
      have "Fin v0 \<le> Max (insert NegInf S)"
        using fin v0 by (intro Max_ge) auto
      then have "Max (insert NegInf S) \<noteq> NegInf"
        by auto
      moreover have "Max (insert NegInf S) \<in> insert NegInf S"
        using fin by (intro Max_in) auto
      ultimately have "Max (insert NegInf S) \<in> S" by auto
      then show ?thesis
        using kids eq by (auto simp: S_def)
    next
      case notMax: False
      define S where
        "S = (\<lambda>j. fst (minimax (b[j := Some PlayerX]) (depth + 1) True aiPlayer)) ` cellsFrom b 0"
      have fin: "finite (insert PosInf S)" by (simp add: S_def)
      have eq: "fst (minimax b depth isMaximizing aiPlayer) = Min (insert PosInf S)"
        using False notMax by (subst minimax_score) (simp add: S_def)
      obtain v0 where v0: "Fin v0 \<in> S"
        using kids[OF j0, of PlayerX "depth + 1" True] j0 by (auto simp: S_def image_iff) metis
      have "Min (insert PosInf S) \<le> Fin v0"
        using fin v0 by (intro Min_le) auto
      then have "Min (insert PosInf S) \<noteq> PosInf"
        by auto
      moreover have "Min (insert PosInf S) \<in> insert PosInf S"
        using fin by (intro Min_in) auto
      ultimately have "Min (insert PosInf S) \<in> S" by auto
      then show ?thesis
        using kids eq by (auto simp: S_def)
    qed
  qed
qed


lemma bestLoop_first_max:
  "(fst (bestLoop b aiPlayer i bestScore move) = move
      \<and> (\<forall>j \<in> cellsFrom b i. rootScore b aiPlayer j \<le> bestScore))
   \<or> (\<exists>k \<in> cellsFrom b i.
        fst (bestLoop b aiPlayer i bestScore move) = int k
      \<and> bestScore < rootScore b aiPlayer k
      \<and> (\<forall>j \<in> cellsFrom b i. rootScore b aiPlayer j \<le> rootScore b aiPlayer k)
      \<and> (\<forall>j \<in> cellsFrom b i. j < k \<longrightarrow> rootScore b aiPlayer j < rootScore b aiPlayer k))"
proof (induction "9 - i" arbitrary: i bestScore move)
  case 0
  then show ?case
    by (subst bestLoop_unfold) (simp add: cellsFrom_done)
next
  case (Suc n)
  then have i: "i < 9" and n: "n = 9 - (i + 1)" by auto
  let ?s = "rootScore b aiPlayer"
  show ?case
  proof (cases "isNull b i")
    case False
    have "bestLoop b aiPlayer i bestScore move = bestLoop b aiPlayer (i + 1) bestScore move"
      using i False by (subst bestLoop_unfold) simp
    then show ?thesis
      using Suc.hyps(1)[OF n, of bestScore move] False by (simp add: cellsFrom_skip)
  next
    case True
    have cells: "cellsFrom b i = insert i (cellsFrom b (i + 1))"
      using i True by (rule cellsFrom_null)
    have above: "\<forall>j \<in> cellsFrom b (i + 1). i < j"
      by (simp add: cellsFrom_def)
    show ?thesis
    proof (cases "bestScore < ?s i")
      case better: True
      have step: "bestLoop b aiPlayer i bestScore move = bestLoop b aiPlayer (i + 1) (?s i) (int i)"
        using i True better by (subst bestLoop_unfold) simp
      from Suc.hyps(1)[OF n, of "?s i" "int i"] show ?thesis
      proof (elim disjE conjE bexE)
        assume "fst (bestLoop b aiPlayer (i + 1) (?s i) (int i)) = int i"
          and "\<forall>j \<in> cellsFrom b (i + 1). ?s j \<le> ?s i"
        then show ?thesis
          using step better cells above by (intro disjI2 bexI[of _ i]) auto
      next
        fix k
        assume "k \<in> cellsFrom b (i + 1)"
          and "fst (bestLoop b aiPlayer (i + 1) (?s i) (int i)) = int k"
          and "?s i < ?s k"
          and "\<forall>j \<in> cellsFrom b (i + 1). ?s j \<le> ?s k"
          and "\<forall>j \<in> cellsFrom b (i + 1). j < k \<longrightarrow> ?s j < ?s k"
        then show ?thesis
          using step better cells by (intro disjI2 bexI[of _ k]) auto
      qed
    next
      case worse: False
      have step: "bestLoop b aiPlayer i bestScore move = bestLoop b aiPlayer (i + 1) bestScore move"
        using i True worse by (subst bestLoop_unfold) simp
      from Suc.hyps(1)[OF n, of bestScore move] show ?thesis
      proof (elim disjE conjE bexE)
        assume "fst (bestLoop b aiPlayer (i + 1) bestScore move) = move"
          and "\<forall>j \<in> cellsFrom b (i + 1). ?s j \<le> bestScore"
        then show ?thesis
          using step worse cells by auto
      next
        fix k
        assume "k \<in> cellsFrom b (i + 1)"
          and "fst (bestLoop b aiPlayer (i + 1) bestScore move) = int k"
          and "bestScore < ?s k"
          and "\<forall>j \<in> cellsFrom b (i + 1). ?s j \<le> ?s k"
          and "\<forall>j \<in> cellsFrom b (i + 1). j < k \<longrightarrow> ?s j < ?s k"
        then show ?thesis
          using step worse cells by (intro disjI2 bexI[of _ k]) auto
      qed
    qed
  qed
qed

lemma rootScore_Fin: "length b \<le> 9 \<Longrightarrow> \<exists>v. rootScore b aiPlayer j = Fin v"
  by (simp add: rootScore_def minimax_Fin)

section \<open>Safety and the sign of the score\<close>

lemma someMove_iff:
  "someMove me b m js \<longleftrightarrow>
     (\<exists>j \<in> set js. isNull b j \<and> safe me (b[j := Some (mover m)]) (\<not> m))"
  by (induction js) (auto simp: someMove.simps)

lemma everyMove_iff:
  "everyMove me b m js \<longleftrightarrow>
     (\<forall>j \<in> set js. isNull b j \<longrightarrow> safe me (b[j := Some (mover m)]) (\<not> m))"
  by (induction js) (auto simp: everyMove.simps)

lemma below_nine: "j < 9 \<longleftrightarrow> j \<in> {0, 1, 2, 3, 4, 5, 6, 7, 8 :: nat}"
  by auto

lemma scan_cells:
  "(j \<in> set [4, 0, 2, 6, 8, 1, 3, 5, 7] \<and> isNull b j) = (j \<in> cellsFrom b 0)"
  "(j \<in> set [0, 1, 2, 3, 4, 5, 6, 7, 8] \<and> isNull b j) = (j \<in> cellsFrom b 0)"
  by (auto simp: cellsFrom_def below_nine)

lemma safe_unfold:
  "safe me b m =
     (if checkWin b PlayerO then me = PlayerO
      else if checkWin b PlayerX then me = PlayerX
      else if isFull b then True
      else if mover m = me then (\<exists>j \<in> cellsFrom b 0. safe me (b[j := Some (mover m)]) (\<not> m))
      else (\<forall>j \<in> cellsFrom b 0. safe me (b[j := Some (mover m)]) (\<not> m)))"
proof -
  have s: "someMove me b m [4, 0, 2, 6, 8, 1, 3, 5, 7]
      = (\<exists>j \<in> cellsFrom b 0. safe me (b[j := Some (mover m)]) (\<not> m))"
    unfolding someMove_iff using scan_cells(1)[of _ b] by blast
  have e: "everyMove me b m [0, 1, 2, 3, 4, 5, 6, 7, 8]
      = (\<forall>j \<in> cellsFrom b 0. safe me (b[j := Some (mover m)]) (\<not> m))"
    unfolding everyMove_iff using scan_cells(2)[of _ b] by blast
  show ?thesis
    by (subst safe.simps) (simp only: s e)
qed


lemma safe_score:
  "depth + int (nulls b) \<le> 9 \<Longrightarrow>
     (safe PlayerO b m \<longleftrightarrow> Fin 0 \<le> fst (minimax b depth m aiPlayer))
   \<and> (safe PlayerX b m \<longleftrightarrow> fst (minimax b depth m aiPlayer) \<le> Fin 0)"
proof (induction "nulls b" arbitrary: b depth m rule: less_induct)
  case less
  let ?C = "cellsFrom b 0"
  let ?f = "\<lambda>j. fst (minimax (b[j := Some (mover m)]) (depth + 1) (\<not> m) aiPlayer)"
  have kidsO: "safe PlayerO (b[j := Some (mover m)]) (\<not> m) \<longleftrightarrow> Fin 0 \<le> ?f j"
    and kidsX: "safe PlayerX (b[j := Some (mover m)]) (\<not> m) \<longleftrightarrow> ?f j \<le> Fin 0"
    if "j \<in> ?C" for j
  proof -
    have n: "Suc (nulls (b[j := Some (mover m)])) = nulls b"
      using that by (intro nulls_place) (simp add: cellsFrom_def)
    then have "depth + 1 + int (nulls (b[j := Some (mover m)])) \<le> 9"
      using less.prems by linarith
    moreover have "nulls (b[j := Some (mover m)]) < nulls b"
      using n by linarith
    ultimately show "safe PlayerO (b[j := Some (mover m)]) (\<not> m) \<longleftrightarrow> Fin 0 \<le> ?f j"
      and "safe PlayerX (b[j := Some (mover m)]) (\<not> m) \<longleftrightarrow> ?f j \<le> Fin 0"
      using less.hyps[of "b[j := Some (mover m)]" "depth + 1" "\<not> m"] by blast+
  qed
  have d: "depth \<le> 9"
    using less.prems by linarith
  show ?case
  proof (cases "checkWin b PlayerO \<or> checkWin b PlayerX \<or> isFull b")
    case True
    have so: "safe PlayerO b m \<longleftrightarrow> checkWin b PlayerO \<or> \<not> checkWin b PlayerX"
      using True by (subst safe_unfold) auto
    have sx: "safe PlayerX b m \<longleftrightarrow> \<not> checkWin b PlayerO"
      using True by (subst safe_unfold) auto
    have sc: "fst (minimax b depth m aiPlayer) =
        (if checkWin b PlayerO then Fin (10 - depth)
         else if checkWin b PlayerX then Fin (- 10 + depth) else Fin 0)"
      using True by (subst minimax_score) auto
    show ?thesis
      unfolding so sx sc using d by simp
  next
    case False
    show ?thesis
    proof (cases m)
      case True
      have sc: "fst (minimax b depth m aiPlayer) = Max (insert NegInf (?f ` ?C))"
        using False True by (subst minimax_score) (simp add: mover_def)
      have fin: "finite (insert NegInf (?f ` ?C))" "insert NegInf (?f ` ?C) \<noteq> {}"
        by simp_all
      have "safe PlayerO b m \<longleftrightarrow> (\<exists>j \<in> ?C. Fin 0 \<le> ?f j)"
        using False True kidsO by (subst safe_unfold) (simp add: mover_def)
      moreover have "safe PlayerX b m \<longleftrightarrow> (\<forall>j \<in> ?C. ?f j \<le> Fin 0)"
        using False True kidsX by (subst safe_unfold) (simp add: mover_def)
      ultimately show ?thesis
        unfolding sc Max_ge_iff[OF fin] Max_le_iff[OF fin] by simp
    next
      case notMax: False
      have sc: "fst (minimax b depth m aiPlayer) = Min (insert PosInf (?f ` ?C))"
        using False notMax by (subst minimax_score) (simp add: mover_def)
      have fin: "finite (insert PosInf (?f ` ?C))" "insert PosInf (?f ` ?C) \<noteq> {}"
        by simp_all
      have "safe PlayerO b m \<longleftrightarrow> (\<forall>j \<in> ?C. Fin 0 \<le> ?f j)"
        using False notMax kidsO by (subst safe_unfold) (simp add: mover_def)
      moreover have "safe PlayerX b m \<longleftrightarrow> (\<exists>j \<in> ?C. ?f j \<le> Fin 0)"
        using False notMax kidsX by (subst safe_unfold) (simp add: mover_def)
      ultimately show ?thesis
        unfolding sc Min_ge_iff[OF fin] Min_le_iff[OF fin] by simp
    qed
  qed
qed

lemma nulls_le_length: "nulls b \<le> length b"
  by (simp add: nulls_def)

section \<open>The win evaluator\<close>

text \<open>
  Claim C7.  For every board and both marks, \<open>checkWin\<close> is true of a mark exactly when
  one of the eight lines (rows 0-1-2, 3-4-5, 6-7-8, columns 0-3-6, 1-4-7, 2-5-8, diagonals
  0-4-8, 2-4-6) has its three cells equal to that mark.
\<close>

theorem checkWin_lines:
  "checkWin b p \<longleftrightarrow>
     (cell b 0 = Some (Some p) \<and> cell b 1 = Some (Some p) \<and> cell b 2 = Some (Some p))
   \<or> (cell b 3 = Some (Some p) \<and> cell b 4 = Some (Some p) \<and> cell b 5 = Some (Some p))
   \<or> (cell b 6 = Some (Some p) \<and> cell b 7 = Some (Some p) \<and> cell b 8 = Some (Some p))
   \<or> (cell b 0 = Some (Some p) \<and> cell b 3 = Some (Some p) \<and> cell b 6 = Some (Some p))
   \<or> (cell b 1 = Some (Some p) \<and> cell b 4 = Some (Some p) \<and> cell b 7 = Some (Some p))
   \<or> (cell b 2 = Some (Some p) \<and> cell b 5 = Some (Some p) \<and> cell b 8 = Some (Some p))
   \<or> (cell b 0 = Some (Some p) \<and> cell b 4 = Some (Some p) \<and> cell b 8 = Some (Some p))
   \<or> (cell b 2 = Some (Some p) \<and> cell b 4 = Some (Some p) \<and> cell b 6 = Some (Some p))"
  by (simp add: checkWin_def WIN_COMBINATIONS_def holds_def)

theorem checkWin_lines_witness:
  "checkWin [cX, cO, cN, cN, cX, cO, cN, cN, cX] PlayerX
   \<and> \<not> checkWin [cX, cO, cN, cN, cX, cO, cN, cN, cX] PlayerO"
  by (simp add: checkWin_lines cell_def)

section \<open>The scores of terminal boards\<close>

lemma win_O_example:
  "checkWin [cO, cO, cO, cX, cX, cN, cN, cN, cN] PlayerO"
  by (simp add: checkWin_def WIN_COMBINATIONS_def holds_def cell_def)

lemma win_X_example:
  "\<not> checkWin [cX, cX, cX, cO, cO, cN, cN, cN, cN] PlayerO
   \<and> checkWin [cX, cX, cX, cO, cO, cN, cN, cN, cN] PlayerX"
  by (simp add: checkWin_def WIN_COMBINATIONS_def holds_def cell_def)

lemma tie_example:
  "\<not> checkWin [cX, cO, cX, cX, cO, cO, cO, cX, cX] PlayerO
   \<and> \<not> checkWin [cX, cO, cX, cX, cO, cO, cO, cX, cX] PlayerX
   \<and> isFull [cX, cO, cX, cX, cO, cO, cO, cX, cX]"
  by (simp add: checkWin_def WIN_COMBINATIONS_def holds_def cell_def isFull_def)

text \<open>
  Claim C2 (scoring convention).  For every board and depth: when \<^verbatim>\<open>'O'\<close> holds a
  line the evaluation returns \<open>10 - depth\<close>; otherwise, when \<^verbatim>\<open>'X'\<close> holds a line, it
  returns \<open>-10 + depth\<close>; otherwise, when the board is full, it returns 0.
\<close>

theorem minimax_terminal_scores:
  "(checkWin b PlayerO \<longrightarrow> fst (minimax b depth isMaximizing aiPlayer) = Fin (10 - depth))
   \<and> (\<not> checkWin b PlayerO \<and> checkWin b PlayerX \<longrightarrow>
        fst (minimax b depth isMaximizing aiPlayer) = Fin (- 10 + depth))
   \<and> (\<not> checkWin b PlayerO \<and> \<not> checkWin b PlayerX \<and> isFull b \<longrightarrow>
        fst (minimax b depth isMaximizing aiPlayer) = Fin 0)"
  by (simp add: minimax.simps SCORES_O_def SCORES_X_def SCORES_TIE_def)

theorem minimax_terminal_scores_witness:
  "fst (minimax [cO, cO, cO, cX, cX, cN, cN, cN, cN] 3 True PlayerO) = Fin 7
   \<and> fst (minimax [cX, cX, cX, cO, cO, cN, cN, cN, cN] 3 True PlayerO) = Fin (- 7)
   \<and> fst (minimax [cX, cO, cX, cX, cO, cO, cO, cX, cX] 3 True PlayerO) = Fin 0"
  using
    minimax_terminal_scores[of "[cO, cO, cO, cX, cX, cN, cN, cN, cN]" 3 True PlayerO]
    minimax_terminal_scores[of "[cX, cX, cX, cO, cO, cN, cN, cN, cN]" 3 True PlayerO]
    minimax_terminal_scores[of "[cX, cO, cX, cX, cO, cO, cO, cX, cX]" 3 True PlayerO]
    win_O_example win_X_example tie_example
  by simp

section \<open>The mark handed to the search\<close>

lemma aiPlayer_irrelevant:
  "minimax b depth isMaximizing a = minimax b depth isMaximizing a'"
  "maxLoop b depth a i bestScore = maxLoop b depth a' i bestScore"
  "minLoop b depth a i bestScore = minLoop b depth a' i bestScore"
proof (induction b depth isMaximizing a and b depth a i bestScore and b depth a i bestScore
    rule: minimax_maxLoop_minLoop.induct)
  case (1 b depth isMaximizing aiPlayer)
  then show ?case
    by (simp add: minimax.simps[of b depth isMaximizing])
next
  case (2 b depth aiPlayer i bestScore)
  show ?case
  proof (cases "i < 9 \<and> isNull b i")
    case True
    obtain s b' where m: "minimax (b[i := Some PlayerO]) (depth + 1) False aiPlayer = (s, b')"
      by (cases "minimax (b[i := Some PlayerO]) (depth + 1) False aiPlayer")
    have m': "minimax (b[i := Some PlayerO]) (depth + 1) False a' = (s, b')"
      using "2.IH"(1) True m by simp
    show ?thesis
      using True m m' "2.IH"(2)
      by (simp add: maxLoop.simps[of b depth _ i bestScore])
  next
    case False
    then show ?thesis
      using "2.IH"(3) by (auto simp: maxLoop.simps[of b depth _ i bestScore])
  qed
next
  case (3 b depth aiPlayer i bestScore)
  show ?case
  proof (cases "i < 9 \<and> isNull b i")
    case True
    obtain s b' where m: "minimax (b[i := Some PlayerX]) (depth + 1) True aiPlayer = (s, b')"
      by (cases "minimax (b[i := Some PlayerX]) (depth + 1) True aiPlayer")
    have m': "minimax (b[i := Some PlayerX]) (depth + 1) True a' = (s, b')"
      using "3.IH"(1) True m by simp
    show ?thesis
      using True m m' "3.IH"(2)
      by (simp add: minLoop.simps[of b depth _ i bestScore])
  next
    case False
    then show ?thesis
      using "3.IH"(3) by (auto simp: minLoop.simps[of b depth _ i bestScore])
  qed
qed

text \<open>
  Claim C10.  The result of \<open>minimax\<close> does not depend on its argument \<open>aiPlayer\<close>: for
  every board, depth and role, the call with \<^verbatim>\<open>'X'\<close> and the call with \<^verbatim>\<open>'O'\<close> return
  the same score (and the same board).
\<close>

theorem minimax_ignores_aiPlayer:
  "minimax b depth isMaximizing PlayerX = minimax b depth isMaximizing PlayerO"
  by (rule aiPlayer_irrelevant(1))

section \<open>Termination of the search\<close>

lemma nulls_zero_full: "nulls b = 0 \<Longrightarrow> isFull b"
  by (induction b) (auto simp: nulls_def isFull_def split: if_splits)

text \<open>
  Claim C9.  \<open>minimax\<close> is total: every argument is in the domain of the recursion (the
  accessible part of its call relation), for every board, depth, role and mark.  The
  reason is the one the termination proof uses: a recursive call is made on a board with
  a mark written over a \<^verbatim>\<open>null\<close> cell, which has strictly fewer \<^verbatim>\<open>null\<close> cells, and a
  board with no \<^verbatim>\<open>null\<close> cell returns a win score or 0 without entering a loop.
\<close>

theorem minimax_total:
  "minimax_maxLoop_minLoop_dom (Inl (b, depth, isMaximizing, aiPlayer))
   \<and> (isNull b i \<longrightarrow> nulls (b[i := Some p]) < nulls b)
   \<and> (nulls b = 0 \<longrightarrow>
        minimax b depth isMaximizing aiPlayer = (Fin (10 - depth), b)
      \<or> minimax b depth isMaximizing aiPlayer = (Fin (- 10 + depth), b)
      \<or> minimax b depth isMaximizing aiPlayer = (Fin 0, b))"
proof -
  have "minimax_maxLoop_minLoop_dom (Inl (b, depth, isMaximizing, aiPlayer))"
    using minimax_calls_decrease by blast
  moreover have "isNull b i \<longrightarrow> nulls (b[i := Some p]) < nulls b"
    using nulls_place[of b i p] by auto
  moreover have "nulls b = 0 \<longrightarrow>
        minimax b depth isMaximizing aiPlayer = (Fin (10 - depth), b)
      \<or> minimax b depth isMaximizing aiPlayer = (Fin (- 10 + depth), b)
      \<or> minimax b depth isMaximizing aiPlayer = (Fin 0, b)"
    using nulls_zero_full[of b]
    by (auto simp: minimax.simps SCORES_O_def SCORES_X_def SCORES_TIE_def)
  ultimately show ?thesis by blast
qed

theorem minimax_total_witness:
  "minimax_maxLoop_minLoop_dom (Inl ([None, Some PlayerX], 0, True, PlayerO))
   \<and> isNull [None, Some PlayerX] 0
   \<and> nulls ([None, Some PlayerX][0 := Some PlayerO]) < nulls [None, Some PlayerX]
   \<and> nulls [Some PlayerO, Some PlayerX] = 0
   \<and> minimax [Some PlayerO, Some PlayerX] 1 False PlayerO = (Fin 0, [Some PlayerO, Some PlayerX])"
proof -
  have n: "isNull [None, Some PlayerX] 0" "nulls [Some PlayerO, Some PlayerX] = 0"
    by (simp_all add: isNull_def cell_def nulls_def)
  have w: "\<not> checkWin [Some PlayerO, Some PlayerX] PlayerO"
    "\<not> checkWin [Some PlayerO, Some PlayerX] PlayerX"
    by (simp_all add: checkWin_def WIN_COMBINATIONS_def holds_def cell_def)
  have m: "minimax [Some PlayerO, Some PlayerX] 1 False PlayerO
      = (Fin 0, [Some PlayerO, Some PlayerX])"
    using w by (simp add: minimax.simps isFull_def SCORES_TIE_def)
  show ?thesis
    using minimax_total[of "[None, Some PlayerX]" 0 True PlayerO 0 PlayerO] n m
    by simp
qed

section \<open>Boards with no legal move\<close>

lemma bestLoop_no_null:
  "(\<And>j. i \<le> j \<Longrightarrow> j < 9 \<Longrightarrow> \<not> isNull b j) \<Longrightarrow> bestLoop b aiPlayer i bestScore move = (move, b)"
proof (induction "9 - i" arbitrary: i)
  case 0
  then show ?case by (simp add: bestLoop.simps)
next
  case (Suc k)
  then have "bestLoop b aiPlayer (i + 1) bestScore move = (move, b)"
    by simp
  moreover have "\<not> isNull b i"
    using Suc.prems Suc.hyps(2) by simp
  ultimately show ?case
    by (subst bestLoop.simps) simp
qed

lemma isFull_no_null: "isFull b \<Longrightarrow> \<not> isNull b j"
  by (auto simp: isFull_def isNull_iff list_all_length)

lemma isFull_not_isEmpty: "isFull b \<Longrightarrow> b \<noteq> [] \<Longrightarrow> \<not> isEmpty b"
  by (cases b) (auto simp: isFull_def isEmpty_def)

lemma available_nulls:
  "available b = map int (filter (\<lambda>i. b ! i = None) [0..<length b])"
proof -
  have z: "zip b [0..<length b] = map (\<lambda>i. (b ! i, i)) [0..<length b]"
    by (rule nth_equalityI) simp_all
  have "available b =
      map (\<lambda>i. if b ! i = None then int i else - 1)
        (filter (\<lambda>i. (if b ! i = None then int i else - 1) \<noteq> - 1) [0..<length b])"
    by (simp add: available_def z filter_map comp_def)
  also have "filter (\<lambda>i. (if b ! i = None then int i else - 1) \<noteq> - 1) [0..<length b]
      = filter (\<lambda>i. b ! i = None) [0..<length b]"
    by (rule filter_cong) auto
  also have
    "map (\<lambda>i. if b ! i = None then int i else - 1) (filter (\<lambda>i. b ! i = None) [0..<length b])
      = map int (filter (\<lambda>i. b ! i = None) [0..<length b])"
    by (rule map_cong) auto
  finally show ?thesis .
qed

lemma available_full: "isFull b \<Longrightarrow> available b = []"
  by (auto simp: available_nulls isFull_def list_all_length filter_empty_conv)

text \<open>
  Claim C3 says that the policies fail with an error on a board with no empty cell.  The
  source has no such path: on the drawn board both policies return the index \<open>-1\<close>.
\<close>

theorem no_error_on_full_board:
  "isFull drawnBoard
   \<and> fst (getBestMove drawnBoard PlayerO) = - 1 \<and> getRandomMove drawnBoard 0 = Some (- 1)"
proof -
  have f: "isFull drawnBoard"
    by (simp add: drawnBoard_def isFull_def)
  have e: "\<not> isEmpty drawnBoard"
    by (simp add: drawnBoard_def isEmpty_def)
  show ?thesis
    using f e
    by (simp add: getBestMove_def bestLoop_no_null isFull_no_null getRandomMove_def
        available_full)
qed

text \<open>
  Claim C3, amended.  On a board of nine cells none of which is \<^verbatim>\<open>null\<close>,
  \<open>getBestMove\<close> and \<open>getRandomMove\<close> return the index \<open>-1\<close> (and the board unchanged),
  for every mark and every random draw; \<open>makeAiMove\<close> tests for that index and then
  leaves the state as it is.
\<close>

theorem no_legal_move_sentinel:
  assumes "length b = 9" and "isFull b"
  shows "getBestMove b aiPlayer = (- 1, b) \<and> getRandomMove b r = Some (- 1)
    \<and> (board st = b \<longrightarrow> makeAiMove st r1 r2 = st)"
proof -
  have "b \<noteq> []" using assms(1) by auto
  then have "\<not> isEmpty b" using assms(2) by (rule isFull_not_isEmpty[rotated])
  then have g: "getBestMove b aiPlayer = (- 1, b)" for aiPlayer
    using assms(2) by (simp add: getBestMove_def bestLoop_no_null isFull_no_null)
  have r: "getRandomMove b r = Some (- 1)" for r
    using assms(2) by (simp add: getRandomMove_def available_full)
  have "makeAiMove st r1 r2 = st" if "board st = b"
    using that g[of PlayerO] r[of r2] by (simp add: makeAiMove_def bestChoice_def)
  then show ?thesis
    using g r by simp
qed

theorem no_legal_move_sentinel_witness:
  "length drawnBoard = 9 \<and> isFull drawnBoard
   \<and> getBestMove drawnBoard PlayerO = (- 1, drawnBoard)
   \<and> getRandomMove drawnBoard (1 / 2) = Some (- 1)
   \<and> makeAiMove (position drawnBoard PlayerO) (1 / 2) (1 / 2) = position drawnBoard PlayerO"
proof -
  have h: "length drawnBoard = 9" "isFull drawnBoard"
    by (simp_all add: drawnBoard_def isFull_def)
  show ?thesis
    using h
      no_legal_move_sentinel[OF h, of PlayerO "1 / 2" "position drawnBoard PlayerO" "1 / 2" "1 / 2"]
    by (simp add: position_def)
qed

section \<open>The random policy on a single empty cell\<close>

lemma filter_only:
  "distinct xs \<Longrightarrow> k \<in> set xs \<Longrightarrow> P k \<Longrightarrow> (\<And>j. j \<in> set xs \<Longrightarrow> j \<noteq> k \<Longrightarrow> \<not> P j) \<Longrightarrow>
     filter P xs = [k]"
proof (induction xs)
  case Nil
  then show ?case by simp
next
  case (Cons x xs)
  show ?case
  proof (cases "x = k")
    case True
    then have "filter P xs = []"
      using Cons.prems by (auto simp: filter_empty_conv)
    then show ?thesis
      using True Cons.prems(3) by simp
  next
    case False
    then show ?thesis
      using Cons by auto
  qed
qed

lemma available_single:
  assumes "isNull b k" and "\<And>j. j \<noteq> k \<Longrightarrow> \<not> isNull b j"
  shows "available b = [int k]"
proof -
  have "filter (\<lambda>i. b ! i = None) [0..<length b] = [k]"
  proof (rule filter_only)
    show "distinct [0..<length b]" by simp
    show "k \<in> set [0..<length b]" using assms(1) by (simp add: isNull_iff)
    show "b ! k = None" using assms(1) by (simp add: isNull_iff)
    show "b ! j \<noteq> None" if "j \<in> set [0..<length b]" and "j \<noteq> k" for j
      using assms(2)[of j] that by (simp add: isNull_iff)
  qed
  then show ?thesis
    by (simp add: available_nulls)
qed

text \<open>
  Claim C8.  On a board with exactly one \<^verbatim>\<open>null\<close> cell, at index \<open>k\<close>, and for every
  draw \<open>r\<close> of \<^verbatim>\<open>Math.random()\<close> (a number with \<open>0 \<le> r < 1\<close>), \<open>getRandomMove\<close> returns
  \<open>k\<close>; hence the easy opponent (\<^verbatim>\<open>mode = 'pvec'\<close>) moves to \<open>k\<close>.
\<close>

theorem random_single_move:
  assumes "isNull b k" and "\<forall>j. j \<noteq> k \<longrightarrow> \<not> isNull b j" and "0 \<le> r" and "r < 1"
  shows "getRandomMove b r = Some (int k)
    \<and> (board st = b \<and> isGameActive st \<and> mode st = pvec \<longrightarrow>
         makeAiMove st r1 r = makeMove k PlayerO st)"
proof -
  have a: "available b = [int k]"
    using assms(1,2) by (intro available_single) auto
  have "\<lfloor>r\<rfloor> = 0"
    using assms(3,4) by (simp add: floor_eq_iff)
  then have g: "getRandomMove b r = Some (int k)"
    by (simp add: getRandomMove_def a)
  then have "makeAiMove st r1 r = makeMove k PlayerO st"
    if "board st = b" "isGameActive st" "mode st = pvec"
    using that by (simp add: makeAiMove_def getDifficulty_def)
  then show ?thesis
    using g by blast
qed

theorem random_single_move_witness:
  "isNull lastCell 8 \<and> \<not> isNull lastCell 3 \<and> (0::real) \<le> 3 / 4 \<and> (3 / 4 :: real) < 1
   \<and> getRandomMove lastCell (3 / 4) = Some 8
   \<and> makeAiMove ((position lastCell PlayerO)\<lparr>mode := pvec\<rparr>) (1 / 4) (3 / 4)
       = makeMove 8 PlayerO ((position lastCell PlayerO)\<lparr>mode := pvec\<rparr>)"
proof -
  have c: "isNull lastCell j \<longleftrightarrow> j = 8" for j
  proof -
    have "j < 9 \<Longrightarrow> j \<in> {0, 1, 2, 3, 4, 5, 6, 7, 8}" by auto
    then show ?thesis
      by (auto simp: isNull_iff lastCell_def)
  qed
  have h: "isNull lastCell 8" "\<forall>j. j \<noteq> 8 \<longrightarrow> \<not> isNull lastCell j"
    "(0::real) \<le> 3 / 4" "(3 / 4 :: real) < 1"
    using c by simp_all
  show ?thesis
    using h c random_single_move[OF h, of "(position lastCell PlayerO)\<lparr>mode := pvec\<rparr>" "1 / 4"]
    by (simp add: position_def)
qed

text \<open>
  Claim C5 (frame property).  For every board and mark, the board that \<open>getBestMove\<close>
  leaves is the board it was given, cell for cell: each speculative placement has been
  undone.  The same holds of every call of \<open>minimax\<close>, and of the policy layer, which
  hands the board of the state to \<open>getBestMove\<close>.
\<close>

theorem search_restores_board:
  "snd (getBestMove b aiPlayer) = b \<and> snd (minimax b depth isMaximizing aiPlayer) = b
   \<and> snd (bestChoice st) = st"
proof -
  have g: "snd (getBestMove c a) = c" for c a
    by (simp add: getBestMove_def)
  have "snd (bestChoice st) = st"
    using g[of "board st" PlayerO]
    by (cases "getBestMove (board st) PlayerO") (simp add: bestChoice_def)
  then show ?thesis
    using g by simp
qed

section \<open>The move returned by the root loop\<close>

lemma getBestMove_argmax:
  assumes "length b = 9" and "\<not> isEmpty b" and "\<exists>i < 9. isNull b i"
  shows "\<exists>k < 9. isNull b k \<and> fst (getBestMove b aiPlayer) = int k
    \<and> (\<forall>j < 9. isNull b j \<longrightarrow> rootScore b aiPlayer j \<le> rootScore b aiPlayer k)
    \<and> (\<forall>j < k. isNull b j \<longrightarrow> rootScore b aiPlayer j < rootScore b aiPlayer k)"
proof -
  let ?s = "rootScore b aiPlayer"
  obtain i0 where i0: "i0 \<in> cellsFrom b 0"
    using assms(3) by (auto simp: cellsFrom_def)
  obtain v where "?s i0 = Fin v"
    using rootScore_Fin[of b aiPlayer i0] assms(1) by auto
  then have "\<not> ?s i0 \<le> NegInf"
    by simp
  then have "\<not> (\<forall>j \<in> cellsFrom b 0. ?s j \<le> NegInf)"
    using i0 by blast
  then obtain k where k: "k \<in> cellsFrom b 0"
    "fst (bestLoop b aiPlayer 0 NegInf (- 1)) = int k"
    "\<forall>j \<in> cellsFrom b 0. ?s j \<le> ?s k"
    "\<forall>j \<in> cellsFrom b 0. j < k \<longrightarrow> ?s j < ?s k"
    using bestLoop_first_max[of b aiPlayer 0 NegInf "- 1"] by blast
  have "k < 9 \<and> isNull b k \<and> fst (getBestMove b aiPlayer) = int k
    \<and> (\<forall>j < 9. isNull b j \<longrightarrow> ?s j \<le> ?s k)
    \<and> (\<forall>j < k. isNull b j \<longrightarrow> ?s j < ?s k)"
    using k assms(2) by (auto simp: cellsFrom_def getBestMove_def)
  then show ?thesis by blast
qed


text \<open>
  Claim C4 (tie-break).  On a board of nine cells that is not all empty and has a
  \<^verbatim>\<open>null\<close> cell, \<open>getBestMove\<close> returns a \<^verbatim>\<open>null\<close> cell \<open>k\<close> whose score is the
  greatest among the \<^verbatim>\<open>null\<close> cells, and every \<^verbatim>\<open>null\<close> cell before \<open>k\<close> has a strictly
  smaller score: \<open>k\<close> is the lowest index with the greatest score.
\<close>

theorem getBestMove_first_max:
  assumes "length b = 9" and "\<not> isEmpty b" and "\<exists>i < 9. isNull b i"
  shows "\<exists>k < 9. isNull b k \<and> fst (getBestMove b aiPlayer) = int k
    \<and> (\<forall>j < 9. isNull b j \<longrightarrow> rootScore b aiPlayer j \<le> rootScore b aiPlayer k)
    \<and> (\<forall>j < k. isNull b j \<longrightarrow> rootScore b aiPlayer j < rootScore b aiPlayer k)"
  using assms by (rule getBestMove_argmax)

theorem getBestMove_first_max_witness:
  "length tieBoard = 9 \<and> \<not> isEmpty tieBoard \<and> isNull tieBoard 5 \<and> isNull tieBoard 7
   \<and> rootScore tieBoard PlayerO 5 = Fin 10 \<and> rootScore tieBoard PlayerO 7 = Fin 10
   \<and> fst (getBestMove tieBoard PlayerO) = 5"
proof -
  have c: "isNull tieBoard j \<longleftrightarrow> j = 5 \<or> j = 7" for j
  proof -
    have "j < 9 \<Longrightarrow> j \<in> {0, 1, 2, 3, 4, 5, 6, 7, 8}" by auto
    then show ?thesis
      by (auto simp: isNull_iff tieBoard_def)
  qed
  have "(5::nat) < 9 \<and> isNull tieBoard 5"
    using c by simp
  then have h3: "\<exists>i < 9. isNull tieBoard i" ..
  have h: "length tieBoard = 9" "\<not> isEmpty tieBoard" "\<exists>i < 9. isNull tieBoard i"
    using h3 by (simp_all add: tieBoard_def isEmpty_def)
  have s5: "rootScore tieBoard PlayerO 5 = Fin 10"
    by (simp add: rootScore_def tieBoard_def minimax.simps checkWin_def WIN_COMBINATIONS_def
        holds_def cell_def SCORES_O_def)
  have s7: "rootScore tieBoard PlayerO 7 = Fin 10"
    by (simp add: rootScore_def tieBoard_def minimax.simps checkWin_def WIN_COMBINATIONS_def
        holds_def cell_def SCORES_O_def)
  obtain k where k: "isNull tieBoard k" "fst (getBestMove tieBoard PlayerO) = int k"
    "\<forall>j < k. isNull tieBoard j \<longrightarrow> rootScore tieBoard PlayerO j < rootScore tieBoard PlayerO k"
    using getBestMove_first_max[OF h, of PlayerO] by blast
  have "k \<noteq> 7"
  proof
    assume "k = 7"
    then have "rootScore tieBoard PlayerO 5 < rootScore tieBoard PlayerO 7"
      using k(3) c by simp
    then show False
      using s5 s7 by simp
  qed
  then have "k = 5"
    using k(1) c by simp
  then show ?thesis
    using h c s5 s7 k(2) by simp
qed

section \<open>Evaluation on boards written out\<close>

text \<open>The tests and the writes on a board of nine cells given cell by cell.\<close>

lemma checkWin9:
  "checkWin [a, b, c, d, e, f, g, h, i] p =
     (if a = Some p \<and> b = Some p \<and> c = Some p then True
      else if d = Some p \<and> e = Some p \<and> f = Some p then True
      else if g = Some p \<and> h = Some p \<and> i = Some p then True
      else if a = Some p \<and> d = Some p \<and> g = Some p then True
      else if b = Some p \<and> e = Some p \<and> h = Some p then True
      else if c = Some p \<and> f = Some p \<and> i = Some p then True
      else if a = Some p \<and> e = Some p \<and> i = Some p then True
      else if c = Some p \<and> e = Some p \<and> g = Some p then True
      else False)"
  by (simp add: checkWin_def WIN_COMBINATIONS_def holds_def cell_def)

lemma isFull9:
  "isFull [a, b, c, d, e, f, g, h, i] =
     (a \<noteq> None \<and> b \<noteq> None \<and> c \<noteq> None \<and> d \<noteq> None \<and> e \<noteq> None \<and> f \<noteq> None
      \<and> g \<noteq> None \<and> h \<noteq> None \<and> i \<noteq> None)"
  by (simp add: isFull_def)

lemma isNull9:
  "isNull [a, b, c, d, e, f, g, h, i] 0 = (a = None)"
  "isNull [a, b, c, d, e, f, g, h, i] 1 = (b = None)"
  "isNull [a, b, c, d, e, f, g, h, i] 2 = (c = None)"
  "isNull [a, b, c, d, e, f, g, h, i] 3 = (d = None)"
  "isNull [a, b, c, d, e, f, g, h, i] 4 = (e = None)"
  "isNull [a, b, c, d, e, f, g, h, i] 5 = (f = None)"
  "isNull [a, b, c, d, e, f, g, h, i] 6 = (g = None)"
  "isNull [a, b, c, d, e, f, g, h, i] 7 = (h = None)"
  "isNull [a, b, c, d, e, f, g, h, i] 8 = (i = None)"
  by (simp_all add: isNull_def cell_def)

lemma update9:
  "[a, b, c, d, e, f, g, h, i][0 := v] = [v, b, c, d, e, f, g, h, i]"
  "[a, b, c, d, e, f, g, h, i][1 := v] = [a, v, c, d, e, f, g, h, i]"
  "[a, b, c, d, e, f, g, h, i][2 := v] = [a, b, v, d, e, f, g, h, i]"
  "[a, b, c, d, e, f, g, h, i][3 := v] = [a, b, c, v, e, f, g, h, i]"
  "[a, b, c, d, e, f, g, h, i][4 := v] = [a, b, c, d, v, f, g, h, i]"
  "[a, b, c, d, e, f, g, h, i][5 := v] = [a, b, c, d, e, v, g, h, i]"
  "[a, b, c, d, e, f, g, h, i][6 := v] = [a, b, c, d, e, f, v, h, i]"
  "[a, b, c, d, e, f, g, h, i][7 := v] = [a, b, c, d, e, f, g, v, i]"
  "[a, b, c, d, e, f, g, h, i][8 := v] = [a, b, c, d, e, f, g, h, v]"
  by (simp_all add: numeral_eq_Suc)

lemmas board9 = safe.simps someMove.simps everyMove.simps checkWin9 isFull9 isNull9 update9
  mover_def option.inject option.distinct Player.distinct simp_thms if_True if_False

section \<open>Openings\<close>

text \<open>
  The positions after one mark on the empty board, decided by evaluation: \<^verbatim>\<open>'O'\<close> is safe
  after any first move of \<^verbatim>\<open>'X'\<close>, and after any first move of \<^verbatim>\<open>'O'\<close> both marks
  are safe.
\<close>

lemma safe_O_after_X0:
  "safe PlayerO [cX, cN, cN, cN, cN, cN, cN, cN, cN] True"
  by (simp only: board9 cong: if_weak_cong)

lemma safe_O_after_X1:
  "safe PlayerO [cN, cX, cN, cN, cN, cN, cN, cN, cN] True"
  by (simp only: board9 cong: if_weak_cong)

lemma safe_O_after_X2:
  "safe PlayerO [cN, cN, cX, cN, cN, cN, cN, cN, cN] True"
  by (simp only: board9 cong: if_weak_cong)

lemma safe_O_after_X3:
  "safe PlayerO [cN, cN, cN, cX, cN, cN, cN, cN, cN] True"
  by (simp only: board9 cong: if_weak_cong)

lemma safe_O_after_X4:
  "safe PlayerO [cN, cN, cN, cN, cX, cN, cN, cN, cN] True"
  by (simp only: board9 cong: if_weak_cong)

lemma safe_O_after_X5:
  "safe PlayerO [cN, cN, cN, cN, cN, cX, cN, cN, cN] True"
  by (simp only: board9 cong: if_weak_cong)

lemma safe_O_after_X6:
  "safe PlayerO [cN, cN, cN, cN, cN, cN, cX, cN, cN] True"
  by (simp only: board9 cong: if_weak_cong)

lemma safe_O_after_X7:
  "safe PlayerO [cN, cN, cN, cN, cN, cN, cN, cX, cN] True"
  by (simp only: board9 cong: if_weak_cong)

lemma safe_O_after_X8:
  "safe PlayerO [cN, cN, cN, cN, cN, cN, cN, cN, cX] True"
  by (simp only: board9 cong: if_weak_cong)

lemma safe_X_after_O0:
  "safe PlayerX [cO, cN, cN, cN, cN, cN, cN, cN, cN] False"
  by (simp only: board9 cong: if_weak_cong)

lemma safe_X_after_O1:
  "safe PlayerX [cN, cO, cN, cN, cN, cN, cN, cN, cN] False"
  by (simp only: board9 cong: if_weak_cong)

lemma safe_X_after_O2:
  "safe PlayerX [cN, cN, cO, cN, cN, cN, cN, cN, cN] False"
  by (simp only: board9 cong: if_weak_cong)

lemma safe_X_after_O3:
  "safe PlayerX [cN, cN, cN, cO, cN, cN, cN, cN, cN] False"
  by (simp only: board9 cong: if_weak_cong)

lemma safe_X_after_O4:
  "safe PlayerX [cN, cN, cN, cN, cO, cN, cN, cN, cN] False"
  by (simp only: board9 cong: if_weak_cong)

lemma safe_X_after_O5:
  "safe PlayerX [cN, cN, cN, cN, cN, cO, cN, cN, cN] False"
  by (simp only: board9 cong: if_weak_cong)

lemma safe_X_after_O6:
  "safe PlayerX [cN, cN, cN, cN, cN, cN, cO, cN, cN] False"
  by (simp only: board9 cong: if_weak_cong)

lemma safe_X_after_O7:
  "safe PlayerX [cN, cN, cN, cN, cN, cN, cN, cO, cN] False"
  by (simp only: board9 cong: if_weak_cong)

lemma safe_X_after_O8:
  "safe PlayerX [cN, cN, cN, cN, cN, cN, cN, cN, cO] False"
  by (simp only: board9 cong: if_weak_cong)

lemma safe_O_after_O0:
  "safe PlayerO [cO, cN, cN, cN, cN, cN, cN, cN, cN] False"
  by (simp only: board9 cong: if_weak_cong)

lemma safe_O_after_O1:
  "safe PlayerO [cN, cO, cN, cN, cN, cN, cN, cN, cN] False"
  by (simp only: board9 cong: if_weak_cong)

lemma safe_O_after_O2:
  "safe PlayerO [cN, cN, cO, cN, cN, cN, cN, cN, cN] False"
  by (simp only: board9 cong: if_weak_cong)

lemma safe_O_after_O3:
  "safe PlayerO [cN, cN, cN, cO, cN, cN, cN, cN, cN] False"
  by (simp only: board9 cong: if_weak_cong)

lemma safe_O_after_O4:
  "safe PlayerO [cN, cN, cN, cN, cO, cN, cN, cN, cN] False"
  by (simp only: board9 cong: if_weak_cong)

lemma safe_O_after_O5:
  "safe PlayerO [cN, cN, cN, cN, cN, cO, cN, cN, cN] False"
  by (simp only: board9 cong: if_weak_cong)

lemma safe_O_after_O6:
  "safe PlayerO [cN, cN, cN, cN, cN, cN, cO, cN, cN] False"
  by (simp only: board9 cong: if_weak_cong)

lemma safe_O_after_O7:
  "safe PlayerO [cN, cN, cN, cN, cN, cN, cN, cO, cN] False"
  by (simp only: board9 cong: if_weak_cong)

lemma safe_O_after_O8:
  "safe PlayerO [cN, cN, cN, cN, cN, cN, cN, cN, cO] False"
  by (simp only: board9 cong: if_weak_cong)

section \<open>The empty board\<close>

lemma empty9: "replicate 9 None = [cN, cN, cN, cN, cN, cN, cN, cN, cN]"
  by (simp add: numeral_eq_Suc)

lemma score_zero:
  assumes "length b = 9" and "safe PlayerO b m" and "safe PlayerX b m"
  shows "fst (minimax b 0 m aiPlayer) = Fin 0"
proof -
  have "0 + int (nulls b) \<le> 9"
    using nulls_le_length[of b] assms(1) by simp
  then have "Fin 0 \<le> fst (minimax b 0 m aiPlayer)" "fst (minimax b 0 m aiPlayer) \<le> Fin 0"
    using safe_score[of 0 b m aiPlayer] assms(2,3) by blast+
  then show ?thesis
    by (rule antisym[rotated])
qed

lemma opening_scores:
  "j < 9 \<Longrightarrow> rootScore (replicate 9 None) PlayerO j = Fin 0"
  unfolding below_nine rootScore_def empty9
  by (auto simp only: update9 intro!: score_zero
      safe_O_after_O0 safe_O_after_O1 safe_O_after_O2 safe_O_after_O3 safe_O_after_O4
      safe_O_after_O5 safe_O_after_O6 safe_O_after_O7 safe_O_after_O8
      safe_X_after_O0 safe_X_after_O1 safe_X_after_O2 safe_X_after_O3 safe_X_after_O4
      safe_X_after_O5 safe_X_after_O6 safe_X_after_O7 safe_X_after_O8)
    simp_all

lemma empty_cells: "cellsFrom (replicate 9 None) 0 = {j. j < 9}"
  by (auto simp: cellsFrom_def isNull_iff)

lemma full_search_empty:
  "fst (bestLoop (replicate 9 None) PlayerO 0 NegInf (- 1)) = 0"
proof -
  let ?e = "replicate 9 None :: board"
  let ?s = "rootScore ?e PlayerO"
  have z: "?s j = Fin 0" if "j \<in> cellsFrom ?e 0" for j
    using that opening_scores by (simp add: empty_cells)
  have c0: "0 \<in> cellsFrom ?e 0"
    by (simp add: empty_cells)
  have "\<not> (\<forall>j \<in> cellsFrom ?e 0. ?s j \<le> NegInf)"
    using z[OF c0] c0 by (metis score_order(10))
  then obtain k where k: "k \<in> cellsFrom ?e 0"
    "fst (bestLoop ?e PlayerO 0 NegInf (- 1)) = int k"
    "\<forall>j \<in> cellsFrom ?e 0. j < k \<longrightarrow> ?s j < ?s k"
    using bestLoop_first_max[of ?e PlayerO 0 NegInf "- 1"] by blast
  have "k = 0"
  proof (rule ccontr)
    assume "k \<noteq> 0"
    then have "?s 0 < ?s k"
      using k(3) c0 by simp
    then show False
      using z[OF c0] z[OF k(1)] by simp
  qed
  then show ?thesis
    using k(2) by simp
qed

lemma shortcut_empty: "fst (getBestMove (replicate 9 None) aiPlayer) = 4"
  by (simp add: getBestMove_def isEmpty_def list_all_iff)

text \<open>
  Claim C6 says that the shortcut on the empty board returns the move of the full search.
  It returns 4; the root loop run on the empty board returns 0.
\<close>

theorem shortcut_differs_from_search:
  "fst (getBestMove (replicate 9 None) PlayerO) = 4
   \<and> fst (bestLoop (replicate 9 None) PlayerO 0 NegInf (- 1)) = 0"
  using shortcut_empty[of PlayerO] full_search_empty by simp

text \<open>
  Claim C6, amended.  On the board with no marks \<open>getBestMove\<close> returns exactly 4, for
  either mark.  The root loop on that board would return 0 for \<^verbatim>\<open>'O'\<close>: each of the nine
  cells has the score 0 and the loop keeps the first.  The shortcut returns a move of the
  same score as the search, at another index.
\<close>

theorem shortcut_same_score:
  "fst (getBestMove (replicate 9 None) aiPlayer) = 4
   \<and> fst (bestLoop (replicate 9 None) PlayerO 0 NegInf (- 1)) = 0
   \<and> rootScore (replicate 9 None) PlayerO 4 = rootScore (replicate 9 None) PlayerO 0
   \<and> map (rootScore (replicate 9 None) PlayerO) [0, 1, 2, 3, 4, 5, 6, 7, 8] = replicate 9 (Fin 0)"
proof -
  have r: "replicate 9 (Fin 0) = [Fin 0, Fin 0, Fin 0, Fin 0, Fin 0, Fin 0, Fin 0, Fin 0, Fin 0]"
    by (simp add: numeral_eq_Suc)
  have "map (rootScore (replicate 9 None) PlayerO) [0, 1, 2, 3, 4, 5, 6, 7, 8]
      = replicate 9 (Fin 0)"
    unfolding r by (simp add: opening_scores)
  then show ?thesis
    using shortcut_empty[of aiPlayer] full_search_empty by (simp add: opening_scores)
qed

section \<open>The hard opponent is never beaten\<close>

lemma holds_other:
  "q \<noteq> p \<Longrightarrow> holds (b[i := Some p]) k q \<Longrightarrow> holds b k q"
  by (cases "k = i") (auto simp: holds_def cell_def split: if_splits)

lemma checkWin_other:
  assumes "q \<noteq> p" and "checkWin (b[i := Some p]) q"
  shows "checkWin b q"
proof -
  obtain combo where c: "combo \<in> set WIN_COMBINATIONS"
    "\<forall>k \<in> set combo. holds (b[i := Some p]) k q"
    using assms(2) by (auto simp: checkWin_def list_ex_iff list_all_iff)
  then have "\<forall>k \<in> set combo. holds b k q"
    using holds_other[OF assms(1)] by blast
  then show ?thesis
    using c(1) by (auto simp: checkWin_def list_ex_iff list_all_iff)
qed

lemma safe_O_empty_X_first:
  "safe PlayerO [cN, cN, cN, cN, cN, cN, cN, cN, cN] False"
  by (subst safe.simps)
    (simp only: everyMove.simps checkWin9 isFull9 isNull9 update9 mover_def
      option.inject option.distinct Player.distinct simp_thms if_True if_False
      safe_O_after_X0 safe_O_after_X1 safe_O_after_X2 safe_O_after_X3 safe_O_after_X4
      safe_O_after_X5 safe_O_after_X6 safe_O_after_X7 safe_O_after_X8 cong: if_weak_cong)

lemma safe_O_empty_O_first:
  "safe PlayerO [cN, cN, cN, cN, cN, cN, cN, cN, cN] True"
  by (subst safe.simps)
    (simp only: someMove.simps checkWin9 isFull9 isNull9 update9 mover_def
      option.inject option.distinct Player.distinct simp_thms if_True if_False
      safe_O_after_O4 cong: if_weak_cong)

lemma unbeaten_start: "unbeaten (newGame first)"
proof -
  have "safe PlayerO (replicate 9 None) (first = PlayerO)"
    using safe_O_empty_X_first safe_O_empty_O_first by (cases first) (simp_all add: empty9)
  moreover have "\<not> checkWin (replicate 9 None) p" for p
    by (simp add: empty9 checkWin9)
  moreover have "\<not> isFull (replicate 9 None)"
    by (simp add: empty9 isFull9)
  ultimately show ?thesis
    by (simp add: unbeaten_def newGame_def)
qed

lemma unbeaten_human:
  assumes "unbeaten st" and "isGameActive st" and "currentPlayer st = PlayerX"
    and "isNull (board st) i"
  shows "unbeaten (makeMove i PlayerX st)"
proof -
  let ?b = "board st"
  let ?b' = "?b[i := Some PlayerX]"
  have inv: "length ?b = 9" "mode st = pvch" "xWins (stats st) = 0"
    "\<not> checkWin ?b PlayerO" "\<not> isFull ?b" "\<not> checkWin ?b PlayerX"
    "oWins (stats st) = 0" "draws (stats st) = 0" "safe PlayerO ?b False"
    using assms(1,2,3) by (simp_all add: unbeaten_def)
  have "i \<in> cellsFrom ?b 0"
    using assms(4) inv(1) by (simp add: cellsFrom_def isNull_iff)
  then have s: "safe PlayerO ?b' True"
    using inv(4,5,6,9) by (subst (asm) safe_unfold) (auto simp: mover_def)
  have o: "\<not> checkWin ?b' PlayerO"
    using inv(4) checkWin_other[of PlayerO PlayerX ?b i] by auto
  have x: "\<not> checkWin ?b' PlayerX"
    using s o by (subst (asm) safe_unfold) (auto split: if_splits)
  show ?thesis
    using inv(1,2,3,7,8) assms(2,3) s o x
    by (simp add: unbeaten_def makeMove_def afterMove_def endGame_def)
qed

lemma choice_safe:
  assumes "length b = 9" and "\<not> checkWin b PlayerO" and "\<not> checkWin b PlayerX"
    and "\<not> isFull b" and "safe PlayerO b True"
  shows "\<exists>k < 9. isNull b k \<and> getBestMove b PlayerO = (int k, b)
    \<and> safe PlayerO (b[k := Some PlayerO]) False"
proof (cases "isEmpty b")
  case True
  then have "b = replicate 9 None"
    using assms(1) by (auto simp: isEmpty_def list_all_length intro!: nth_equalityI)
  then show ?thesis
    using safe_O_after_O4
    by (intro exI[of _ 4])
      (simp add: getBestMove_def isEmpty_def list_all_iff empty9 isNull9 update9)
next
  case False
  have depth0: "safe PlayerO (b[j := Some PlayerO]) False \<longleftrightarrow> Fin 0 \<le> rootScore b PlayerO j" for j
  proof -
    have "0 + int (nulls (b[j := Some PlayerO])) \<le> 9"
      using nulls_le_length[of "b[j := Some PlayerO]"] assms(1) by simp
    then show ?thesis
      using safe_score[of 0 "b[j := Some PlayerO]" False PlayerO] by (simp add: rootScore_def)
  qed
  obtain j where j: "j \<in> cellsFrom b 0" "Fin 0 \<le> rootScore b PlayerO j"
    using assms(2,3,4,5) depth0 by (subst (asm) safe_unfold) (auto simp: mover_def)
  then have "\<exists>i < 9. isNull b i"
    by (auto simp: cellsFrom_def)
  then obtain k where k: "k < 9" "isNull b k" "fst (getBestMove b PlayerO) = int k"
    "\<forall>j < 9. isNull b j \<longrightarrow> rootScore b PlayerO j \<le> rootScore b PlayerO k"
    using getBestMove_argmax[OF assms(1) False, of PlayerO] by blast
  have "rootScore b PlayerO j \<le> rootScore b PlayerO k"
    using k(4) j(1) by (simp add: cellsFrom_def)
  then have "Fin 0 \<le> rootScore b PlayerO k"
    using j(2) by (rule order_trans[rotated])
  then have "safe PlayerO (b[k := Some PlayerO]) False"
    using depth0 by simp
  moreover have "getBestMove b PlayerO = (int k, b)"
    using k(3) getBestMove_board[of b PlayerO] by (cases "getBestMove b PlayerO") simp
  ultimately show ?thesis
    using k(1,2) by blast
qed

lemma unbeaten_ai:
  assumes "unbeaten st" and "isGameActive st" and "currentPlayer st = PlayerO"
  shows "unbeaten (makeAiMove st r1 r2)"
proof -
  let ?b = "board st"
  have inv: "length ?b = 9" "mode st = pvch" "xWins (stats st) = 0"
    "\<not> checkWin ?b PlayerO" "\<not> isFull ?b" "\<not> checkWin ?b PlayerX"
    "oWins (stats st) = 0" "draws (stats st) = 0" "safe PlayerO ?b True"
    using assms by (simp_all add: unbeaten_def)
  obtain k where k: "k < 9" "isNull ?b k" "getBestMove ?b PlayerO = (int k, ?b)"
    "safe PlayerO (?b[k := Some PlayerO]) False"
    using choice_safe[OF inv(1,4,6,5,9)] by blast
  let ?b' = "?b[k := Some PlayerO]"
  have mv: "makeAiMove st r1 r2 = makeMove k PlayerO st"
    using assms(2) inv(2) k(3) by (simp add: makeAiMove_def getDifficulty_def bestChoice_def)
  have x: "\<not> checkWin ?b' PlayerX"
    using inv(6) checkWin_other[of PlayerX PlayerO ?b k] by auto
  show ?thesis
    unfolding mv using inv(1,2,3,7,8) assms(2,3) k(4) x
    by (simp add: unbeaten_def makeMove_def afterMove_def endGame_def)
qed

lemma play_unbeaten: "play st \<Longrightarrow> unbeaten st"
  by (induction rule: play.induct) (simp_all add: unbeaten_start unbeaten_human unbeaten_ai)

text \<open>
  A click of the player of \<^verbatim>\<open>'X'\<close>, with the reply that \<open>handleCellClick\<close> schedules,
  stays within the plays.
\<close>

lemma click_is_play:
  assumes "play st" and "currentPlayer st = PlayerX"
  shows "play (handleCellClick i st r1 r2)"
proof (cases "isGameActive st \<and> isNull (board st) i")
  case False
  then show ?thesis
    using assms(1) by (auto simp: handleCellClick_def)
next
  case True
  let ?s1 = "makeMove i PlayerX st"
  have p1: "play ?s1"
    using assms True by (intro play.human) auto
  show ?thesis
  proof (cases "isGameActive ?s1 \<and> isAiTurn ?s1")
    case False
    then show ?thesis
      using True p1 assms(2) by (auto simp: handleCellClick_def Let_def)
  next
    case reply: True
    then have "play (makeAiMove ?s1 r1 r2)"
      using p1 by (intro play.ai) (auto simp: isAiTurn_def)
    then show ?thesis
      using True reply assms(2) by (auto simp: handleCellClick_def Let_def)
  qed
qed

text \<open>\<open>resetGame\<close> in the hard mode, with nothing in the tally, starts a play.\<close>

lemma reset_is_newGame: "resetGame (position b p) = newGame PlayerX"
  by (simp add: resetGame_def position_def newGame_def)

subsection \<open>A play, move by move\<close>

text \<open>
  The move that \<open>getBestMove\<close> returns is determined by bounds on the scores of the
  \<^verbatim>\<open>null\<close> cells: it is the first cell that no other cell exceeds.
\<close>

lemma first_max_pick:
  assumes "length b = 9" and "\<not> isEmpty b" and "k0 < 9" and "isNull b k0"
    and "\<forall>j < 9. isNull b j \<longrightarrow> rootScore b aiPlayer j \<le> rootScore b aiPlayer k0"
    and "\<forall>j < k0. isNull b j \<longrightarrow> rootScore b aiPlayer j < rootScore b aiPlayer k0"
  shows "getBestMove b aiPlayer = (int k0, b)"
proof -
  let ?s = "rootScore b aiPlayer"
  have "\<exists>i < 9. isNull b i"
    using assms(3,4) by blast
  then obtain k where k: "k < 9" "isNull b k" "fst (getBestMove b aiPlayer) = int k"
    "\<forall>j < 9. isNull b j \<longrightarrow> ?s j \<le> ?s k" "\<forall>j < k. isNull b j \<longrightarrow> ?s j < ?s k"
    using getBestMove_argmax[OF assms(1,2), of aiPlayer] by blast
  have "\<not> k < k0"
  proof
    assume "k < k0"
    then have "?s k < ?s k0" using assms(6) k(2) by simp
    moreover have "?s k0 \<le> ?s k" using k(4) assms(3,4) by simp
    ultimately show False by simp
  qed
  moreover have "\<not> k0 < k"
  proof
    assume "k0 < k"
    then have "?s k0 < ?s k" using k(5) assms(4) by simp
    moreover have "?s k \<le> ?s k0" using assms(5) k(1,2) by simp
    ultimately show False by simp
  qed
  ultimately have "k = k0" by simp
  then show ?thesis
    using k(3) getBestMove_board[of b aiPlayer] by (cases "getBestMove b aiPlayer") simp
qed

lemma score_nonpos:
  assumes "length b = 9" and "safe PlayerX b m"
  shows "fst (minimax b 0 m aiPlayer) \<le> Fin 0"
proof -
  have "0 + int (nulls b) \<le> 9"
    using nulls_le_length[of b] assms(1) by simp
  then show ?thesis
    using safe_score[of 0 b m aiPlayer] assms(2) by blast
qed

lemma score_neg:
  assumes "length b = 9" and "\<not> safe PlayerO b m"
  shows "fst (minimax b 0 m aiPlayer) < Fin 0"
proof -
  have "0 + int (nulls b) \<le> 9"
    using nulls_le_length[of b] assms(1) by simp
  then have "\<not> Fin 0 \<le> fst (minimax b 0 m aiPlayer)"
    using safe_score[of 0 b m aiPlayer] assms(2) by blast
  then show ?thesis by simp
qed

lemma ai_step:
  assumes "getBestMove (board st) PlayerO = (int k, board st)" and "isGameActive st"
    and "mode st = pvch"
  shows "makeAiMove st r1 r2 = makeMove k PlayerO st"
  using assms by (simp add: makeAiMove_def getDifficulty_def bestChoice_def)

lemma second_move:
  "getBestMove [cX, cN, cN, cN, cO, cN, cN, cN, cN] PlayerO
     = (1, [cX, cN, cN, cN, cO, cN, cN, cN, cN])"
proof -
  let ?b = "[cX, cN, cN, cN, cO, cN, cN, cN, cN]"
  have s1: "rootScore ?b PlayerO 1 = Fin 0"
  proof -
    have "safe PlayerO [cX, cO, cN, cN, cO, cN, cN, cN, cN] False"
      by (simp only: board9 cong: if_weak_cong)
    moreover have "safe PlayerX [cX, cO, cN, cN, cO, cN, cN, cN, cN] False"
      by (simp only: board9 cong: if_weak_cong)
    ultimately show ?thesis
      by (simp only: rootScore_def update9) (rule score_zero, simp_all)
  qed
  have s2: "rootScore ?b PlayerO 2 = Fin 0"
  proof -
    have "safe PlayerO [cX, cN, cO, cN, cO, cN, cN, cN, cN] False"
      by (simp only: board9 cong: if_weak_cong)
    moreover have "safe PlayerX [cX, cN, cO, cN, cO, cN, cN, cN, cN] False"
      by (simp only: board9 cong: if_weak_cong)
    ultimately show ?thesis
      by (simp only: rootScore_def update9) (rule score_zero, simp_all)
  qed
  have s3: "rootScore ?b PlayerO 3 = Fin 0"
  proof -
    have "safe PlayerO [cX, cN, cN, cO, cO, cN, cN, cN, cN] False"
      by (simp only: board9 cong: if_weak_cong)
    moreover have "safe PlayerX [cX, cN, cN, cO, cO, cN, cN, cN, cN] False"
      by (simp only: board9 cong: if_weak_cong)
    ultimately show ?thesis
      by (simp only: rootScore_def update9) (rule score_zero, simp_all)
  qed
  have s5: "rootScore ?b PlayerO 5 = Fin 0"
  proof -
    have "safe PlayerO [cX, cN, cN, cN, cO, cO, cN, cN, cN] False"
      by (simp only: board9 cong: if_weak_cong)
    moreover have "safe PlayerX [cX, cN, cN, cN, cO, cO, cN, cN, cN] False"
      by (simp only: board9 cong: if_weak_cong)
    ultimately show ?thesis
      by (simp only: rootScore_def update9) (rule score_zero, simp_all)
  qed
  have s6: "rootScore ?b PlayerO 6 = Fin 0"
  proof -
    have "safe PlayerO [cX, cN, cN, cN, cO, cN, cO, cN, cN] False"
      by (simp only: board9 cong: if_weak_cong)
    moreover have "safe PlayerX [cX, cN, cN, cN, cO, cN, cO, cN, cN] False"
      by (simp only: board9 cong: if_weak_cong)
    ultimately show ?thesis
      by (simp only: rootScore_def update9) (rule score_zero, simp_all)
  qed
  have s7: "rootScore ?b PlayerO 7 = Fin 0"
  proof -
    have "safe PlayerO [cX, cN, cN, cN, cO, cN, cN, cO, cN] False"
      by (simp only: board9 cong: if_weak_cong)
    moreover have "safe PlayerX [cX, cN, cN, cN, cO, cN, cN, cO, cN] False"
      by (simp only: board9 cong: if_weak_cong)
    ultimately show ?thesis
      by (simp only: rootScore_def update9) (rule score_zero, simp_all)
  qed
  have s8: "rootScore ?b PlayerO 8 = Fin 0"
  proof -
    have "safe PlayerO [cX, cN, cN, cN, cO, cN, cN, cN, cO] False"
      by (simp only: board9 cong: if_weak_cong)
    moreover have "safe PlayerX [cX, cN, cN, cN, cO, cN, cN, cN, cO] False"
      by (simp only: board9 cong: if_weak_cong)
    ultimately show ?thesis
      by (simp only: rootScore_def update9) (rule score_zero, simp_all)
  qed
  have nul: "isNull ?b j \<longleftrightarrow> j = 1 \<or> j = 2 \<or> j = 3 \<or> j = 5 \<or> j = 6 \<or> j = 7 \<or> j = 8" for j
  proof -
    have "j < 9 \<Longrightarrow> j \<in> {0, 1, 2, 3, 4, 5, 6, 7, 8}" by auto
    then show ?thesis
      by (auto simp: isNull_iff)
  qed
  have top: "\<forall>j < 9. isNull ?b j \<longrightarrow> rootScore ?b PlayerO j \<le> rootScore ?b PlayerO 1"
    unfolding nul using s1 s2 s3 s5 s6 s7 s8 by auto
  have low: "\<forall>j < 1. isNull ?b j \<longrightarrow> rootScore ?b PlayerO j < rootScore ?b PlayerO 1"
    unfolding nul using s1 s2 s3 s5 s6 s7 s8 by auto
  have "getBestMove ?b PlayerO = (int 1, ?b)"
    by (rule first_max_pick[OF _ _ _ _ top low]) (simp_all add: isEmpty_def nul)
  then show ?thesis by simp
qed

lemma third_move:
  "getBestMove [cX, cO, cN, cN, cO, cN, cN, cX, cN] PlayerO
     = (3, [cX, cO, cN, cN, cO, cN, cN, cX, cN])"
proof -
  let ?b = "[cX, cO, cN, cN, cO, cN, cN, cX, cN]"
  have s2: "rootScore ?b PlayerO 2 < Fin 0"
  proof -
    have "\<not> safe PlayerO [cX, cO, cO, cN, cO, cN, cN, cX, cN] False"
      by (simp only: board9 cong: if_weak_cong)
    then show ?thesis
      by (simp only: rootScore_def update9) (rule score_neg, simp_all)
  qed
  have s3: "rootScore ?b PlayerO 3 = Fin 0"
  proof -
    have "safe PlayerO [cX, cO, cN, cO, cO, cN, cN, cX, cN] False"
      by (simp only: board9 cong: if_weak_cong)
    moreover have "safe PlayerX [cX, cO, cN, cO, cO, cN, cN, cX, cN] False"
      by (simp only: board9 cong: if_weak_cong)
    ultimately show ?thesis
      by (simp only: rootScore_def update9) (rule score_zero, simp_all)
  qed
  have s5: "rootScore ?b PlayerO 5 \<le> Fin 0"
  proof -
    have "safe PlayerX [cX, cO, cN, cN, cO, cO, cN, cX, cN] False"
      by (simp only: board9 cong: if_weak_cong)
    then show ?thesis
      by (simp only: rootScore_def update9) (rule score_nonpos, simp_all)
  qed
  have s6: "rootScore ?b PlayerO 6 \<le> Fin 0"
  proof -
    have "safe PlayerX [cX, cO, cN, cN, cO, cN, cO, cX, cN] False"
      by (simp only: board9 cong: if_weak_cong)
    then show ?thesis
      by (simp only: rootScore_def update9) (rule score_nonpos, simp_all)
  qed
  have s8: "rootScore ?b PlayerO 8 \<le> Fin 0"
  proof -
    have "safe PlayerX [cX, cO, cN, cN, cO, cN, cN, cX, cO] False"
      by (simp only: board9 cong: if_weak_cong)
    then show ?thesis
      by (simp only: rootScore_def update9) (rule score_nonpos, simp_all)
  qed
  have nul: "isNull ?b j \<longleftrightarrow> j = 2 \<or> j = 3 \<or> j = 5 \<or> j = 6 \<or> j = 8" for j
  proof -
    have "j < 9 \<Longrightarrow> j \<in> {0, 1, 2, 3, 4, 5, 6, 7, 8}" by auto
    then show ?thesis
      by (auto simp: isNull_iff)
  qed
  have top: "\<forall>j < 9. isNull ?b j \<longrightarrow> rootScore ?b PlayerO j \<le> rootScore ?b PlayerO 3"
    unfolding nul using s2 s3 s5 s6 s8 by auto
  have low: "\<forall>j < 3. isNull ?b j \<longrightarrow> rootScore ?b PlayerO j < rootScore ?b PlayerO 3"
    unfolding nul using s2 s3 s5 s6 s8 by auto
  have "getBestMove ?b PlayerO = (int 3, ?b)"
    by (rule first_max_pick[OF _ _ _ _ top low]) (simp_all add: isEmpty_def nul)
  then show ?thesis by simp
qed

lemma fourth_move:
  "getBestMove [cX, cO, cX, cO, cO, cN, cN, cX, cN] PlayerO
     = (5, [cX, cO, cX, cO, cO, cN, cN, cX, cN])"
proof -
  let ?b = "[cX, cO, cX, cO, cO, cN, cN, cX, cN]"
  have s6: "rootScore ?b PlayerO 6 \<le> Fin 0"
  proof -
    have "safe PlayerX [cX, cO, cX, cO, cO, cN, cO, cX, cN] False"
      by (simp only: board9 cong: if_weak_cong)
    then show ?thesis
      by (simp only: rootScore_def update9) (rule score_nonpos, simp_all)
  qed
  have s8: "rootScore ?b PlayerO 8 \<le> Fin 0"
  proof -
    have "safe PlayerX [cX, cO, cX, cO, cO, cN, cN, cX, cO] False"
      by (simp only: board9 cong: if_weak_cong)
    then show ?thesis
      by (simp only: rootScore_def update9) (rule score_nonpos, simp_all)
  qed
  have s5: "rootScore ?b PlayerO 5 = Fin 10"
    by (simp add: rootScore_def update9 minimax.simps checkWin9 SCORES_O_def)
  have t6: "rootScore ?b PlayerO 6 \<le> Fin 10"
    using s6 by (rule order_trans) simp
  have t8: "rootScore ?b PlayerO 8 \<le> Fin 10"
    using s8 by (rule order_trans) simp
  have nul: "isNull ?b j \<longleftrightarrow> j = 5 \<or> j = 6 \<or> j = 8" for j
  proof -
    have "j < 9 \<Longrightarrow> j \<in> {0, 1, 2, 3, 4, 5, 6, 7, 8}" by auto
    then show ?thesis
      by (auto simp: isNull_iff)
  qed
  have top: "\<forall>j < 9. isNull ?b j \<longrightarrow> rootScore ?b PlayerO j \<le> rootScore ?b PlayerO 5"
    unfolding nul using s6 s8 s5 t6 t8 by auto
  have low: "\<forall>j < 5. isNull ?b j \<longrightarrow> rootScore ?b PlayerO j < rootScore ?b PlayerO 5"
    unfolding nul using s6 s8 s5 t6 t8 by auto
  have "getBestMove ?b PlayerO = (int 5, ?b)"
    by (rule first_max_pick[OF _ _ _ _ top low]) (simp_all add: isEmpty_def nul)
  then show ?thesis by simp
qed

text \<open>
  Claim C1.  In every play from the empty board in which \<^verbatim>\<open>'O'\<close> moves by \<open>getBestMove\<close>
  (the hard opponent of \<open>makeAiMove\<close>) on each of its turns and \<^verbatim>\<open>'X'\<close> takes any
  \<^verbatim>\<open>null\<close> cell on each of its own, whichever mark begins: \<^verbatim>\<open>'X'\<close> never holds a line and
  its wins stay at 0; when the game is over, either \<^verbatim>\<open>'O'\<close> holds a line and has one win,
  or the board is full with no line and the tally has one draw.
\<close>

theorem never_beaten:
  assumes "play st"
  shows "xWins (stats st) = 0 \<and> \<not> checkWin (board st) PlayerX
    \<and> (\<not> isGameActive st \<longrightarrow>
         (checkWin (board st) PlayerO \<and> oWins (stats st) = 1 \<and> draws (stats st) = 0)
       \<or> (\<not> checkWin (board st) PlayerO \<and> isFull (board st)
          \<and> oWins (stats st) = 0 \<and> draws (stats st) = 1))"
  using play_unbeaten[OF assms] by (simp add: unbeaten_def split: if_splits)

text \<open>
  The sample play ends after seven moves with the line 3-4-5 of \<^verbatim>\<open>'O'\<close>.
\<close>

theorem never_beaten_witness:
  "play sampleGame \<and> \<not> isGameActive sampleGame
   \<and> board sampleGame = [cX, cO, cX, cO, cO, cO, cN, cX, cN]
   \<and> checkWin (board sampleGame) PlayerO \<and> \<not> checkWin (board sampleGame) PlayerX
   \<and> xWins (stats sampleGame) = 0 \<and> oWins (stats sampleGame) = 1
   \<and> draws (stats sampleGame) = 0"
proof -
  have g0: "getBestMove [cN, cN, cN, cN, cN, cN, cN, cN, cN] PlayerO
      = (4, [cN, cN, cN, cN, cN, cN, cN, cN, cN])"
    by (simp add: getBestMove_def isEmpty_def)
  have e0: "newGame PlayerO = position [cN, cN, cN, cN, cN, cN, cN, cN, cN] PlayerO"
    by (simp add: newGame_def position_def empty9)
  have e1: "makeAiMove (position [cN, cN, cN, cN, cN, cN, cN, cN, cN] PlayerO) 0 0
      = (position [cN, cN, cN, cN, cO, cN, cN, cN, cN] PlayerX)"
    by (subst ai_step[where k = 4])
      (simp_all add: g0 position_def makeMove_def afterMove_def endGame_def update9
        checkWin9 isFull9)
  have e2: "makeMove 0 PlayerX (position [cN, cN, cN, cN, cO, cN, cN, cN, cN] PlayerX)
      = (position [cX, cN, cN, cN, cO, cN, cN, cN, cN] PlayerO)"
    by (simp add: position_def makeMove_def afterMove_def endGame_def update9 checkWin9 isFull9)
  have e3: "makeAiMove (position [cX, cN, cN, cN, cO, cN, cN, cN, cN] PlayerO) 0 0
      = (position [cX, cO, cN, cN, cO, cN, cN, cN, cN] PlayerX)"
    by (subst ai_step[where k = 1])
      (simp_all add: second_move position_def makeMove_def afterMove_def endGame_def update9
        checkWin9 isFull9)
  have e4: "makeMove 7 PlayerX (position [cX, cO, cN, cN, cO, cN, cN, cN, cN] PlayerX)
      = (position [cX, cO, cN, cN, cO, cN, cN, cX, cN] PlayerO)"
    by (simp add: position_def makeMove_def afterMove_def endGame_def update9 checkWin9 isFull9)
  have e5: "makeAiMove (position [cX, cO, cN, cN, cO, cN, cN, cX, cN] PlayerO) 0 0
      = (position [cX, cO, cN, cO, cO, cN, cN, cX, cN] PlayerX)"
    by (subst ai_step[where k = 3])
      (simp_all add: third_move position_def makeMove_def afterMove_def endGame_def update9
        checkWin9 isFull9)
  have e6: "makeMove 2 PlayerX (position [cX, cO, cN, cO, cO, cN, cN, cX, cN] PlayerX)
      = (position [cX, cO, cX, cO, cO, cN, cN, cX, cN] PlayerO)"
    by (simp add: position_def makeMove_def afterMove_def endGame_def update9 checkWin9 isFull9)
  have e7: "makeAiMove (position [cX, cO, cX, cO, cO, cN, cN, cX, cN] PlayerO) 0 0
      = (position [cX, cO, cX, cO, cO, cO, cN, cX, cN] PlayerO)
        \<lparr>isGameActive := False, stats := \<lparr>xWins = 0, oWins = 1, draws = 0\<rparr>\<rparr>"
    by (subst ai_step[where k = 5])
      (simp_all add: fourth_move position_def makeMove_def afterMove_def endGame_def update9
        checkWin9 isFull9)
  have p0: "play (position [cN, cN, cN, cN, cN, cN, cN, cN, cN] PlayerO)"
    using play.start[of PlayerO] by (simp only: e0)
  have "play (makeAiMove (position [cN, cN, cN, cN, cN, cN, cN, cN, cN] PlayerO) 0 0)"
    by (rule play.ai[OF p0]) (simp_all add: position_def)
  then have p1: "play ((position [cN, cN, cN, cN, cO, cN, cN, cN, cN] PlayerX))"
    by (simp only: e1)
  have "play (makeMove 0 PlayerX (position [cN, cN, cN, cN, cO, cN, cN, cN, cN] PlayerX))"
    by (rule play.human[OF p1]) (simp_all add: position_def isNull9)
  then have p2: "play ((position [cX, cN, cN, cN, cO, cN, cN, cN, cN] PlayerO))"
    by (simp only: e2)
  have "play (makeAiMove (position [cX, cN, cN, cN, cO, cN, cN, cN, cN] PlayerO) 0 0)"
    by (rule play.ai[OF p2]) (simp_all add: position_def)
  then have p3: "play ((position [cX, cO, cN, cN, cO, cN, cN, cN, cN] PlayerX))"
    by (simp only: e3)
  have "play (makeMove 7 PlayerX (position [cX, cO, cN, cN, cO, cN, cN, cN, cN] PlayerX))"
    by (rule play.human[OF p3]) (simp_all add: position_def isNull9)
  then have p4: "play ((position [cX, cO, cN, cN, cO, cN, cN, cX, cN] PlayerO))"
    by (simp only: e4)
  have "play (makeAiMove (position [cX, cO, cN, cN, cO, cN, cN, cX, cN] PlayerO) 0 0)"
    by (rule play.ai[OF p4]) (simp_all add: position_def)
  then have p5: "play ((position [cX, cO, cN, cO, cO, cN, cN, cX, cN] PlayerX))"
    by (simp only: e5)
  have "play (makeMove 2 PlayerX (position [cX, cO, cN, cO, cO, cN, cN, cX, cN] PlayerX))"
    by (rule play.human[OF p5]) (simp_all add: position_def isNull9)
  then have p6: "play ((position [cX, cO, cX, cO, cO, cN, cN, cX, cN] PlayerO))"
    by (simp only: e6)
  have "play (makeAiMove (position [cX, cO, cX, cO, cO, cN, cN, cX, cN] PlayerO) 0 0)"
    by (rule play.ai[OF p6]) (simp_all add: position_def)
  then have p7: "play ((position [cX, cO, cX, cO, cO, cO, cN, cX, cN] PlayerO)
        \<lparr>isGameActive := False, stats := \<lparr>xWins = 0, oWins = 1, draws = 0\<rparr>\<rparr>)"
    by (simp only: e7)
  have fin: "sampleGame = (position [cX, cO, cX, cO, cO, cO, cN, cX, cN] PlayerO)
        \<lparr>isGameActive := False, stats := \<lparr>xWins = 0, oWins = 1, draws = 0\<rparr>\<rparr>"
    by (simp only: sampleGame_def e0 e1 e2 e3 e4 e5 e6 e7)
  have p: "play sampleGame"
    using p7 by (simp only: fin)
  show ?thesis
    using p never_beaten[OF p] by (simp add: fin position_def checkWin9)
qed

end
